theory Spec2Isabelle
  imports Complex_Main "HOL-Library.Word" "HOL-Library.Multiset" "HOL-Library.Product_Lexorder"
begin

section \<open>The float32 arithmetic\<close>

text \<open>
  A value of Go's \<open>float32\<close> (IEEE 754 binary32) is a sign and a magnitude, an
  infinity with its sign, or NaN. \<open>Finite s m\<close> is the number \<open>-m\<close> when \<open>s\<close> holds
  and \<open>m\<close> otherwise, with \<open>m \<ge> 0\<close>; both zeros exist. Every operation computes the
  exact real result and rounds it once to the nearest representable value, ties to the
  even significand, with gradual underflow and overflow to infinity. This is the
  arithmetic the gc compiler emits for amd64, operation by operation; Go also permits an
  implementation to fuse \<open>x*y + z\<close> into one rounding, which is not modelled.
\<close>

datatype f32 = Finite bool real | Infinity bool | NaN

definition f32_val :: "f32 \<Rightarrow> real" where
  "f32_val x = (case x of Finite s m \<Rightarrow> if s then - m else m | Infinity s \<Rightarrow> 0 | NaN \<Rightarrow> 0)"

text \<open>Rounding to the nearest integer, ties to even.\<close>

definition round_even :: "real \<Rightarrow> int" where
  "round_even q =
     (let f = \<lfloor>q\<rfloor>; d = q - of_int f
      in if d < 1 / 2 then f else if 1 / 2 < d then f + 1 else if even f then f else f + 1)"

text \<open>
  Rounding a magnitude \<open>r \<ge> 0\<close> to a binary format with \<open>p\<close> fraction bits and
  least normal exponent \<open>emin\<close> (binary32: 23 and -126; binary64: 52 and -1022). The
  result is a multiple of the unit in the last place of \<open>r\<close>'s binade, or of the
  subnormal unit below \<open>2 ^ emin\<close>; the exponent is not bounded above here.
\<close>

definition round_mag :: "nat \<Rightarrow> int \<Rightarrow> real \<Rightarrow> real" where
  "round_mag p emin r =
     (if r = 0 then 0
      else let e = max \<lfloor>log 2 r\<rfloor> emin;
               ulp = 2 powr (of_int e - of_nat p)
           in ulp * of_int (round_even (r / ulp)))"

text \<open>The float32 of sign \<open>s\<close> nearest to the magnitude \<open>r\<close>; \<open>2 ^ 128\<close> and beyond is infinity.\<close>

definition f32_round :: "bool \<Rightarrow> real \<Rightarrow> f32" where
  "f32_round s r = (let m = round_mag 23 (- 126) r in if 2 ^ 128 \<le> m then Infinity s else Finite s m)"

fun f32_mul :: "f32 \<Rightarrow> f32 \<Rightarrow> f32" where
  "f32_mul NaN y = NaN"
| "f32_mul x NaN = NaN"
| "f32_mul (Infinity s) (Infinity t) = Infinity (s \<noteq> t)"
| "f32_mul (Infinity s) (Finite t n) = (if n = 0 then NaN else Infinity (s \<noteq> t))"
| "f32_mul (Finite s m) (Infinity t) = (if m = 0 then NaN else Infinity (s \<noteq> t))"
| "f32_mul (Finite s m) (Finite t n) = f32_round (s \<noteq> t) (m * n)"

text \<open>An exact sum of zero is \<open>-0\<close> only when both operands are negative (two \<open>-0\<close>).\<close>

fun f32_add :: "f32 \<Rightarrow> f32 \<Rightarrow> f32" where
  "f32_add NaN y = NaN"
| "f32_add x NaN = NaN"
| "f32_add (Infinity s) (Infinity t) = (if s = t then Infinity s else NaN)"
| "f32_add (Infinity s) (Finite t n) = Infinity s"
| "f32_add (Finite s m) (Infinity t) = Infinity t"
| "f32_add (Finite s m) (Finite t n) =
     (let r = (if s then - m else m) + (if t then - n else n)
      in if r = 0 then Finite (s \<and> t) 0 else f32_round (r < 0) \<bar>r\<bar>)"

fun f32_div :: "f32 \<Rightarrow> f32 \<Rightarrow> f32" where
  "f32_div NaN y = NaN"
| "f32_div x NaN = NaN"
| "f32_div (Infinity s) (Infinity t) = NaN"
| "f32_div (Infinity s) (Finite t n) = Infinity (s \<noteq> t)"
| "f32_div (Finite s m) (Infinity t) = Finite (s \<noteq> t) 0"
| "f32_div (Finite s m) (Finite t n) =
     (if n = 0 then (if m = 0 then NaN else Infinity (s \<noteq> t))
      else f32_round (s \<noteq> t) (m / n))"

text \<open>
  \<open>float32(math.Sqrt(float64(x)))\<close>: the conversion to \<open>float64\<close> is exact, the
  square root is rounded to binary64, and the conversion back rounds to binary32.
\<close>

fun f32_sqrt :: "f32 \<Rightarrow> f32" where
  "f32_sqrt NaN = NaN"
| "f32_sqrt (Infinity s) = (if s then NaN else Infinity False)"
| "f32_sqrt (Finite s m) =
     (if m = 0 then Finite s 0
      else if s then NaN
      else f32_round False (round_mag 52 (- 1022) (sqrt m)))"

text \<open>The comparison \<open>x < y\<close>: false when either side is NaN, and the two zeros are equal.\<close>

fun f32_lt :: "f32 \<Rightarrow> f32 \<Rightarrow> bool" where
  "f32_lt NaN y = False"
| "f32_lt x NaN = False"
| "f32_lt (Infinity s) (Infinity t) = (s \<and> \<not> t)"
| "f32_lt (Infinity s) (Finite t n) = s"
| "f32_lt (Finite s m) (Infinity t) = (\<not> t)"
| "f32_lt (Finite s m) (Finite t n) = ((if s then - m else m) < (if t then - n else n))"

text \<open>The comparison \<open>x == 0\<close>.\<close>

fun f32_is_zero :: "f32 \<Rightarrow> bool" where
  "f32_is_zero (Finite s m) = (m = 0)"
| "f32_is_zero (Infinity s) = False"
| "f32_is_zero NaN = False"

text \<open>
  The conversion \<open>int8(x)\<close> discards the fraction (truncation towards zero). For a
  value outside the range of \<open>int8\<close> Go leaves the result to the implementation; the gc
  compiler for amd64 converts to a 32-bit integer (\<open>-2 ^ 31\<close> when that overflows or
  the value is NaN) and keeps the low eight bits.
\<close>

fun int8_of_float :: "f32 \<Rightarrow> 8 word" where
  "int8_of_float (Finite s m) =
     (if \<lfloor>m\<rfloor> < 2 ^ 31 then word_of_int (if s then - \<lfloor>m\<rfloor> else \<lfloor>m\<rfloor>) else 0)"
| "int8_of_float (Infinity s) = 0"
| "int8_of_float NaN = 0"

section \<open>Data model\<close>

text \<open>
  Go's \<open>int\<close> is modelled by \<open>int\<close> where it may be negative (the parameter \<open>k\<close>)
  and by \<open>nat\<close> for slice indices and lengths. A run-time panic is a value of type
  \<open>panic\<close>; a function that may panic returns \<open>panic + 'a\<close>, with \<open>Inl\<close> for the
  panic.
\<close>

type_synonym Vector = "f32 list"

record SearchResult =
  ID :: string
  Score :: f32

type_synonym ResultHeap = "SearchResult list"

record Record =
  ID :: string
  Vector :: Vector
  Quantized :: "8 word list"
  Metadata :: "string \<rightharpoonup> string"
  Namespace :: string

record VectorStore =
  Records :: "Record list"
  IDMap :: "string \<rightharpoonup> nat"

datatype panic = IndexOutOfRange | IntegerDivideByZero

definition NewVectorStore :: VectorStore where
  "NewVectorStore = \<lparr>Records = [], IDMap = Map.empty\<rparr>"

section \<open>Vector math primitives\<close>

text \<open>
  \<open>DotProduct\<close>, first loop: \<open>for i := 0; i < n-3; i += 4\<close>. The bound \<open>n-3\<close> is
  negative for \<open>n < 3\<close>, so the comparison is made on \<open>int\<close>. The indices
  \<open>i .. i+3\<close> are below \<open>len(a)\<close> by the loop condition; reading \<open>b\<close> at one of
  them panics when \<open>b\<close> is shorter. The four products are added from left to right,
  and their sum is added to \<open>sum\<close>.
\<close>

function DotProduct_unrolled :: "Vector \<Rightarrow> Vector \<Rightarrow> nat \<Rightarrow> f32 \<Rightarrow> panic + f32" where
  "DotProduct_unrolled a b i s =
     (if int i < int (length a) - 3 then
        (if i + 3 < length b then
           DotProduct_unrolled a b (i + 4)
             (f32_add s
                (f32_add
                   (f32_add
                      (f32_add (f32_mul (a ! i) (b ! i)) (f32_mul (a ! (i + 1)) (b ! (i + 1))))
                      (f32_mul (a ! (i + 2)) (b ! (i + 2))))
                   (f32_mul (a ! (i + 3)) (b ! (i + 3)))))
         else Inl IndexOutOfRange)
      else Inr s)"
  by pat_completeness auto
termination
  by (relation "measure (\<lambda>(a, b, i, s). length a - i)") auto

declare DotProduct_unrolled.simps [simp del]

text \<open>Second loop: \<open>for i := (n / 4) * 4; i < n; i++\<close>.\<close>

function DotProduct_remainder :: "Vector \<Rightarrow> Vector \<Rightarrow> nat \<Rightarrow> f32 \<Rightarrow> panic + f32" where
  "DotProduct_remainder a b i s =
     (if i < length a then
        (if i < length b then
           DotProduct_remainder a b (i + 1) (f32_add s (f32_mul (a ! i) (b ! i)))
         else Inl IndexOutOfRange)
      else Inr s)"
  by pat_completeness auto
termination
  by (relation "measure (\<lambda>(a, b, i, s). length a - i)") auto

declare DotProduct_remainder.simps [simp del]

text \<open>\<open>var sum float32\<close> starts at \<open>+0\<close>.\<close>

definition DotProduct :: "Vector \<Rightarrow> Vector \<Rightarrow> panic + f32" where
  "DotProduct a b =
     (case DotProduct_unrolled a b 0 (Finite False 0) of
        Inl e \<Rightarrow> Inl e
      | Inr s \<Rightarrow> DotProduct_remainder a b ((length a div 4) * 4) s)"


text \<open>
  \<open>Normalize\<close>: the sum of squares, its square root, the test \<open>mag == 0\<close>, and the
  loop that writes \<open>res[i] = v[i] / mag\<close> into a fresh slice of zeros.
\<close>

definition Normalize :: "Vector \<Rightarrow> Vector" where
  "Normalize v =
     (let s = foldl (\<lambda>s val. f32_add s (f32_mul val val)) (Finite False 0) v;
          mag = f32_sqrt s
      in if f32_is_zero mag then v
         else foldl (\<lambda>res i. res[i := f32_div (v ! i) mag])
                (replicate (length v) (Finite False 0)) [0..<length v])"

section \<open>Quantization\<close>

text \<open>\<open>res[i] = int8(val * 127.0)\<close>; the constant is the float32 \<open>127\<close>.\<close>

definition Quantize :: "Vector \<Rightarrow> 8 word list" where
  "Quantize v =
     foldl (\<lambda>res i. res[i := int8_of_float (f32_mul (v ! i) (Finite False 127))])
       (replicate (length v) 0) [0..<length v]"

section \<open>Record store: insertion\<close>

text \<open>
  \<open>AddItem\<close> (the lock is not modelled: the function is one atomic step). The
  assignment \<open>vs.Records[idx] = record\<close> panics when \<open>idx\<close> is not a position of the
  slice.
\<close>

definition AddItem ::
  "VectorStore \<Rightarrow> string \<Rightarrow> Vector \<Rightarrow> (string \<rightharpoonup> string) \<Rightarrow> string \<Rightarrow> panic + VectorStore" where
  "AddItem vs ident vector meta namespace =
     (let norm = Normalize vector;
          rec = \<lparr>Record.ID = ident, Vector = norm, Quantized = Quantize norm,
                 Metadata = meta, Namespace = namespace\<rparr>
      in case IDMap vs ident of
           Some idx \<Rightarrow>
             if idx < length (Records vs) then Inr (vs\<lparr>Records := (Records vs)[idx := rec]\<rparr>)
             else Inl IndexOutOfRange
         | None \<Rightarrow>
             Inr (vs\<lparr>IDMap := (IDMap vs)(ident \<mapsto> length (Records vs)),
                      Records := Records vs @ [rec]\<rparr>))"

text \<open>
  The invariant of the data model: the mapping sends every identifier it holds to a valid
  position whose record has that identifier, and every position's record identifier is
  sent back to that position.
\<close>

definition store_inv :: "VectorStore \<Rightarrow> bool" where
  "store_inv vs \<longleftrightarrow>
     (\<forall>ident idx. IDMap vs ident = Some idx \<longrightarrow>
        idx < length (Records vs) \<and> Record.ID (Records vs ! idx) = ident) \<and>
     (\<forall>i<length (Records vs). IDMap vs (Record.ID (Records vs ! i)) = Some i)"

section \<open>The result heap\<close>

text \<open>The methods of \<open>ResultHeap\<close> that \<open>container/heap\<close> calls.\<close>

definition Less :: "ResultHeap \<Rightarrow> nat \<Rightarrow> nat \<Rightarrow> bool" where
  "Less h i j \<longleftrightarrow> f32_lt (Score (h ! i)) (Score (h ! j))"

definition Swap :: "ResultHeap \<Rightarrow> nat \<Rightarrow> nat \<Rightarrow> ResultHeap" where
  "Swap h i j = h[i := h ! j, j := h ! i]"

definition ResultHeap_Push :: "ResultHeap \<Rightarrow> SearchResult \<Rightarrow> ResultHeap" where
  "ResultHeap_Push h x = h @ [x]"

definition ResultHeap_Pop :: "ResultHeap \<Rightarrow> panic + (SearchResult \<times> ResultHeap)" where
  "ResultHeap_Pop old = (if old = [] then Inl IndexOutOfRange else Inr (last old, butlast old))"

text \<open>
  The functions of Go's \<open>container/heap\<close> that \<open>Search\<close> uses, over the methods
  above. In \<open>up\<close>, Go computes the parent as \<open>(j - 1) / 2\<close> with division truncating
  towards zero, so the parent of \<open>0\<close> is \<open>0\<close>; subtraction and division on \<open>nat\<close>
  give the same. In \<open>down\<close>, the test \<open>j1 < 0\<close> guards against integer overflow,
  which does not arise for slice indices. The indices read by both loops are positions
  of the slice whenever \<open>j < len(h)\<close> and \<open>n \<le> len(h)\<close>, as in every call below.
\<close>

function heap_up :: "ResultHeap \<Rightarrow> nat \<Rightarrow> ResultHeap" where
  "heap_up h j =
     (let i = (j - 1) div 2 in
      if i = j \<or> \<not> Less h j i then h else heap_up (Swap h i j) i)"
  by pat_completeness auto
termination
  by (relation "measure (\<lambda>(h, j). j)") auto

declare heap_up.simps [simp del]

function heap_down :: "ResultHeap \<Rightarrow> nat \<Rightarrow> nat \<Rightarrow> ResultHeap" where
  "heap_down h i n =
     (let j1 = 2 * i + 1 in
      if j1 \<ge> n then h
      else let j = (if j1 + 1 < n \<and> Less h (j1 + 1) j1 then j1 + 1 else j1) in
           if \<not> Less h j i then h else heap_down (Swap h i j) j n)"
  by pat_completeness auto
termination
  by (relation "measure (\<lambda>(h, i, n). n - i)") (auto split: if_splits)

declare heap_down.simps [simp del]

definition heap_Init :: "ResultHeap \<Rightarrow> ResultHeap" where
  "heap_Init h = (let n = length h in foldl (\<lambda>h i. heap_down h i n) h (rev [0..<n div 2]))"

definition heap_Push :: "ResultHeap \<Rightarrow> SearchResult \<Rightarrow> ResultHeap" where
  "heap_Push h x = (let h' = ResultHeap_Push h x in heap_up h' (length h' - 1))"

text \<open>\<open>heap.Pop\<close> on an empty heap panics in \<open>Swap(0, -1)\<close>.\<close>

definition heap_Pop :: "ResultHeap \<Rightarrow> panic + (SearchResult \<times> ResultHeap)" where
  "heap_Pop h =
     (if h = [] then Inl IndexOutOfRange
      else let n = length h - 1 in ResultHeap_Pop (heap_down (Swap h 0 n) 0 n))"

section \<open>Sharded search\<close>

text \<open>
  The bounded insertion into a top-\<open>k\<close> heap, written twice in \<open>Search\<close> (in the
  worker and in the merge loop):
  \<^verbatim>\<open>if h.Len() < k { heap.Push(h, res) }
  else if res.Score > (*h)[0].Score { heap.Pop(h); heap.Push(h, res) }\<close>
  Reading \<open>(*h)[0]\<close> panics on an empty heap.
\<close>

definition topk_offer :: "int \<Rightarrow> ResultHeap \<Rightarrow> SearchResult \<Rightarrow> panic + ResultHeap" where
  "topk_offer k h res =
     (if int (length h) < k then Inr (heap_Push h res)
      else (case h of
              [] \<Rightarrow> Inl IndexOutOfRange
            | least # _ \<Rightarrow>
                if f32_lt (Score least) (Score res) then
                  (case heap_Pop h of
                     Inl p \<Rightarrow> Inl p
                   | Inr (_, h') \<Rightarrow> Inr (heap_Push h' res))
                else Inr h))"

text \<open>\<open>rec.Metadata[filterKey]\<close>: a missing key (or a nil map) reads as the empty string.\<close>

definition Metadata_value :: "(string \<rightharpoonup> string) \<Rightarrow> string \<Rightarrow> string" where
  "Metadata_value m key = (case m key of None \<Rightarrow> [] | Some v \<Rightarrow> v)"

text \<open>The two filter tests of the worker; a record is scored when both let it pass.\<close>

definition passes_filters :: "string \<Rightarrow> string \<Rightarrow> string \<Rightarrow> Record \<Rightarrow> bool" where
  "passes_filters namespace filterKey filterVal rec \<longleftrightarrow>
     \<not> (namespace \<noteq> [] \<and> Namespace rec \<noteq> namespace) \<and>
     \<not> (filterKey \<noteq> [] \<and> Metadata_value (Metadata rec) filterKey \<noteq> filterVal)"

text \<open>The worker's loop \<open>for j := s; j < e; j++\<close> over its range of the records.\<close>

function shard_scan ::
  "Record list \<Rightarrow> Vector \<Rightarrow> int \<Rightarrow> string \<Rightarrow> string \<Rightarrow> string \<Rightarrow> nat \<Rightarrow> nat \<Rightarrow> ResultHeap
   \<Rightarrow> panic + ResultHeap" where
  "shard_scan recs q k namespace filterKey filterVal j e h =
     (if j < e then
        (if length recs \<le> j then Inl IndexOutOfRange
         else let rec = recs ! j in
           if namespace \<noteq> [] \<and> Namespace rec \<noteq> namespace then
             shard_scan recs q k namespace filterKey filterVal (j + 1) e h
           else if filterKey \<noteq> [] \<and> Metadata_value (Metadata rec) filterKey \<noteq> filterVal then
             shard_scan recs q k namespace filterKey filterVal (j + 1) e h
           else (case DotProduct q (Vector rec) of
                   Inl p \<Rightarrow> Inl p
                 | Inr score \<Rightarrow>
                     (case topk_offer k h \<lparr>SearchResult.ID = Record.ID rec, Score = score\<rparr> of
                        Inl p \<Rightarrow> Inl p
                      | Inr h' \<Rightarrow> shard_scan recs q k namespace filterKey filterVal (j + 1) e h')))
      else Inr h)"
  by pat_completeness auto
termination
  by (relation "measure (\<lambda>(recs, q, k, namespace, filterKey, filterVal, j, e, h). e - j)") auto

declare shard_scan.simps [simp del]

text \<open>
  Emptying a heap into a slice from the back:
  \<^verbatim>\<open>results := make([]SearchResult, h.Len())
  for idx := h.Len() - 1; idx >= 0; idx-- { results[idx] = heap.Pop(h) }\<close>
  The third argument of \<open>drain_loop\<close> is \<open>idx + 1\<close>.
\<close>

fun drain_loop :: "ResultHeap \<Rightarrow> SearchResult list \<Rightarrow> nat \<Rightarrow> panic + SearchResult list" where
  "drain_loop h results 0 = Inr results"
| "drain_loop h results (Suc idx) =
     (case heap_Pop h of
        Inl p \<Rightarrow> Inl p
      | Inr (x, h') \<Rightarrow> drain_loop h' (results[idx := x]) idx)"

definition heap_drain :: "ResultHeap \<Rightarrow> panic + SearchResult list" where
  "heap_drain h =
     drain_loop h (replicate (length h) \<lparr>SearchResult.ID = [], Score = Finite False 0\<rparr>) (length h)"

definition shard_worker ::
  "Record list \<Rightarrow> Vector \<Rightarrow> int \<Rightarrow> string \<Rightarrow> string \<Rightarrow> string \<Rightarrow> nat \<Rightarrow> nat
   \<Rightarrow> panic + SearchResult list" where
  "shard_worker recs q k namespace filterKey filterVal s e =
     (case shard_scan recs q k namespace filterKey filterVal s e (heap_Init []) of
        Inl p \<Rightarrow> Inl p
      | Inr h \<Rightarrow> heap_drain h)"

text \<open>
  The loop that starts the workers: \<open>for i := 0; i < numWorkers; i++\<close>, leaving at the
  first \<open>start >= len(vs.Records)\<close>. It yields the ranges \<open>(start, end)\<close>.
\<close>

function shard_ranges :: "nat \<Rightarrow> nat \<Rightarrow> nat \<Rightarrow> nat \<Rightarrow> (nat \<times> nat) list" where
  "shard_ranges len numWorkers chunkSize i =
     (if i < numWorkers then
        (let start = i * chunkSize in
         if start \<ge> len then []
         else (start, min (start + chunkSize) len)
              # shard_ranges len numWorkers chunkSize (i + 1))
      else [])"
  by pat_completeness auto
termination
  by (relation "measure (\<lambda>(len, numWorkers, chunkSize, i). numWorkers - i)") auto

declare shard_ranges.simps [simp del]

text \<open>A panic in any worker goroutine ends the program; otherwise every worker sends its results.\<close>

fun join_workers :: "(panic + 'a) list \<Rightarrow> panic + 'a list" where
  "join_workers [] = Inr []"
| "join_workers (r # rs) =
     (case r of
        Inl p \<Rightarrow> Inl p
      | Inr x \<Rightarrow> (case join_workers rs of Inl p \<Rightarrow> Inl p | Inr xs \<Rightarrow> Inr (x # xs)))"

text \<open>
  The workers run concurrently, so their results reach the channel in an order the program
  does not fix. The order is a parameter: a schedule, each entry of which picks (modulo
  their number) one of the results not yet received.
\<close>

fun arrival :: "nat list \<Rightarrow> 'a list \<Rightarrow> 'a list" where
  "arrival [] chunks = chunks"
| "arrival (c # cs) chunks =
     (if chunks = [] then []
      else let i = c mod length chunks
           in chunks ! i # arrival cs (take i chunks @ drop (Suc i) chunks))"

text \<open>The merge loop \<open>for chunk := range workChan { for _, res := range chunk { ... } }\<close>.\<close>

fun merge_chunk :: "int \<Rightarrow> ResultHeap \<Rightarrow> SearchResult list \<Rightarrow> panic + ResultHeap" where
  "merge_chunk k finalHeap [] = Inr finalHeap"
| "merge_chunk k finalHeap (res # chunk) =
     (case topk_offer k finalHeap res of
        Inl p \<Rightarrow> Inl p
      | Inr h' \<Rightarrow> merge_chunk k h' chunk)"

fun merge_chunks :: "int \<Rightarrow> ResultHeap \<Rightarrow> SearchResult list list \<Rightarrow> panic + ResultHeap" where
  "merge_chunks k finalHeap [] = Inr finalHeap"
| "merge_chunks k finalHeap (chunk # chunks) =
     (case merge_chunk k finalHeap chunk of
        Inl p \<Rightarrow> Inl p
      | Inr h' \<Rightarrow> merge_chunks k h' chunks)"

text \<open>
  \<open>Search\<close>. Its first two arguments stand for the environment: the value of
  \<open>runtime.NumCPU()\<close> and the schedule. Dividing by \<open>numWorkers = 0\<close> would panic.
\<close>

definition Search ::
  "nat \<Rightarrow> nat list \<Rightarrow> VectorStore \<Rightarrow> Vector \<Rightarrow> int \<Rightarrow> string \<Rightarrow> string \<Rightarrow> string
   \<Rightarrow> panic + SearchResult list" where
  "Search numCPU sched vs query k namespace filterKey filterVal =
     (let q = Normalize query;
          numWorkers = numCPU
      in if numWorkers = 0 then Inl IntegerDivideByZero
         else
           let chunkSize = (length (Records vs) + numWorkers - 1) div numWorkers;
               ranges = shard_ranges (length (Records vs)) numWorkers chunkSize 0
           in case join_workers
                     (map (\<lambda>(s, e). shard_worker (Records vs) q k namespace filterKey filterVal s e)
                        ranges) of
                Inl p \<Rightarrow> Inl p
              | Inr chunks \<Rightarrow>
                  (case merge_chunks k (heap_Init []) (arrival sched chunks) of
                     Inl p \<Rightarrow> Inl p
                   | Inr finalHeap \<Rightarrow> heap_drain finalHeap))"

section \<open>Persistence\<close>

text \<open>
  The file system and the JSON codec are outside the program. A file system is the
  contents of its files and the set of paths that cannot be opened; the type of a file's
  contents is left open. \<open>json.Marshal\<close> and \<open>json.Unmarshal\<close> are parameters of
  \<open>Save\<close> and \<open>Load\<close>; \<open>Unmarshal\<close> receives a pointer to \<open>vs.Records\<close>, so
  it is a function of the data and of the slice it finds there, returning its error and the
  slice it leaves.
\<close>

datatype error = ErrNotExist | ErrPermission | SyntaxError | UnmarshalTypeError | UnsupportedValueError

record 'd filesystem =
  files :: "string \<rightharpoonup> 'd"
  denied :: "string set"

definition os_ReadFile :: "'d filesystem \<Rightarrow> string \<Rightarrow> error + 'd" where
  "os_ReadFile fs name =
     (if name \<in> denied fs then Inl ErrPermission
      else case files fs name of None \<Rightarrow> Inl ErrNotExist | Some data \<Rightarrow> Inr data)"

definition os_WriteFile :: "'d filesystem \<Rightarrow> string \<Rightarrow> 'd \<Rightarrow> error option \<times> 'd filesystem" where
  "os_WriteFile fs name data =
     (if name \<in> denied fs then (Some ErrPermission, fs)
      else (None, fs\<lparr>files := (files fs)(name \<mapsto> data)\<rparr>))"

type_synonym 'd marshal = "Record list \<Rightarrow> error + 'd"
type_synonym 'd unmarshal = "'d \<Rightarrow> Record list \<Rightarrow> error option \<times> Record list"

definition Save ::
  "'d marshal \<Rightarrow> 'd filesystem \<Rightarrow> VectorStore \<Rightarrow> string \<Rightarrow> error option \<times> 'd filesystem" where
  "Save json_Marshal fs vs filename =
     (case json_Marshal (Records vs) of
        Inl err \<Rightarrow> (Some err, fs)
      | Inr data \<Rightarrow> os_WriteFile fs filename data)"

text \<open>The loop \<open>for i, rec := range vs.Records { vs.IDMap[rec.ID] = i }\<close> on a fresh map.\<close>

definition rebuild_IDMap :: "Record list \<Rightarrow> (string \<rightharpoonup> nat)" where
  "rebuild_IDMap recs = foldl (\<lambda>m i. m(Record.ID (recs ! i) \<mapsto> i)) Map.empty [0..<length recs]"

definition Load ::
  "'d unmarshal \<Rightarrow> 'd filesystem \<Rightarrow> VectorStore \<Rightarrow> string \<Rightarrow> error option \<times> VectorStore" where
  "Load json_Unmarshal fs vs filename =
     (case os_ReadFile fs filename of
        Inl err \<Rightarrow> (Some err, vs)
      | Inr data \<Rightarrow>
          (case json_Unmarshal data (Records vs) of
             (Some err, recs) \<Rightarrow> (Some err, vs\<lparr>Records := recs\<rparr>)
           | (None, recs) \<Rightarrow> (None, vs\<lparr>Records := recs, IDMap := rebuild_IDMap recs\<rparr>)))"

section \<open>Specification predicates\<close>

text \<open>
  The float32 that has exactly the value \<open>x\<close>, for a representable \<open>x\<close> (its zero
  is \<open>+0\<close>).
\<close>

abbreviation f32_of :: "real \<Rightarrow> f32" where
  "f32_of x \<equiv> Finite (x < 0) \<bar>x\<bar>"

text \<open>The comparison \<open>x <= y\<close>: false when either side is NaN.\<close>

fun f32_le :: "f32 \<Rightarrow> f32 \<Rightarrow> bool" where
  "f32_le NaN y = False"
| "f32_le x NaN = False"
| "f32_le (Infinity s) (Infinity t) = (s \<or> \<not> t)"
| "f32_le (Infinity s) (Finite t n) = s"
| "f32_le (Finite s m) (Infinity t) = (\<not> t)"
| "f32_le (Finite s m) (Finite t n) = ((if s then - m else m) \<le> (if t then - n else n))"

text \<open>
  The place of a float32 in the linear order of the values that are not NaN: the
  negative infinity, then the finite values by their value, then the positive infinity.
\<close>

fun f32_key :: "f32 \<Rightarrow> int \<times> real" where
  "f32_key (Infinity s) = (if s then - 1 else 1, 0)"
| "f32_key (Finite s m) = (0, if s then - m else m)"
| "f32_key NaN = (2, 0)"

text \<open>The place of a result's score in that order.\<close>

definition score_key :: "SearchResult \<Rightarrow> int \<times> real" where
  "score_key r = f32_key (Score r)"

definition no_NaN :: "ResultHeap \<Rightarrow> bool" where
  "no_NaN h \<longleftrightarrow> list_all (\<lambda>r. Score r \<noteq> NaN) h"

text \<open>
  The first \<open>n\<close> positions of a slice form a binary min-heap on the scores: every
  position but the root holds a score no smaller than its parent's.
\<close>

definition is_heap :: "nat \<Rightarrow> ResultHeap \<Rightarrow> bool" where
  "is_heap n h \<longleftrightarrow>
     (\<forall>c. 0 < c \<and> c < n \<longrightarrow> score_key (h ! ((c - 1) div 2)) \<le> score_key (h ! c))"

text \<open>A heap but for position \<open>j\<close>, which may be smaller than its parent.\<close>

definition heap_except_up :: "ResultHeap \<Rightarrow> nat \<Rightarrow> bool" where
  "heap_except_up h j \<longleftrightarrow>
     (\<forall>c. 0 < c \<and> c < length h \<and> c \<noteq> j \<longrightarrow>
          score_key (h ! ((c - 1) div 2)) \<le> score_key (h ! c)) \<and>
     (\<forall>c. 0 < c \<and> c < length h \<and> (c - 1) div 2 = j \<and> 0 < j \<longrightarrow>
          score_key (h ! ((j - 1) div 2)) \<le> score_key (h ! c))"

text \<open>A heap on the first \<open>n\<close> positions but for position \<open>i\<close>, which may be larger than its children.\<close>

definition heap_except_down :: "nat \<Rightarrow> ResultHeap \<Rightarrow> nat \<Rightarrow> bool" where
  "heap_except_down n h i \<longleftrightarrow>
     (\<forall>c. 0 < c \<and> c < n \<and> (c - 1) div 2 \<noteq> i \<longrightarrow>
          score_key (h ! ((c - 1) div 2)) \<le> score_key (h ! c)) \<and>
     (\<forall>c. 0 < c \<and> c < n \<and> (c - 1) div 2 = i \<and> 0 < i \<longrightarrow>
          score_key (h ! ((i - 1) div 2)) \<le> score_key (h ! c))"

text \<open>
  A result list in non-increasing order of score: every score is greater than or equal
  to every later one, in the comparison of float32.
\<close>

definition sorted_desc :: "SearchResult list \<Rightarrow> bool" where
  "sorted_desc rs \<longleftrightarrow> sorted_wrt (\<lambda>x y. f32_le (Score y) (Score x)) rs"

text \<open>
  A search result \<open>r\<close> stems from a record of \<open>recs\<close> that passes both filters of the
  query: the record's identifier is that of \<open>r\<close>, its score against \<open>q\<close> is that of
  \<open>r\<close>, its namespace is the requested one when one is requested, and its metadata
  value for the filter key (empty when the key is missing) is the requested one when a
  key is given.
\<close>

definition result_of ::
  "Record list \<Rightarrow> Vector \<Rightarrow> string \<Rightarrow> string \<Rightarrow> string \<Rightarrow> SearchResult \<Rightarrow> bool" where
  "result_of recs q namespace filterKey filterVal r \<longleftrightarrow>
     (\<exists>i<length recs.
        Record.ID (recs ! i) = SearchResult.ID r \<and>
        DotProduct q (Vector (recs ! i)) = Inr (Score r) \<and>
        (namespace \<noteq> [] \<longrightarrow> Namespace (recs ! i) = namespace) \<and>
        (filterKey \<noteq> [] \<longrightarrow> Metadata_value (Metadata (recs ! i)) filterKey = filterVal))"

text \<open>The tuple of a record that a snapshot has to preserve.\<close>

definition record_tuple :: "Record \<Rightarrow> string \<times> Vector \<times> (string \<rightharpoonup> string) \<times> string" where
  "record_tuple rec = (Record.ID rec, Vector rec, Metadata rec, Namespace rec)"

text \<open>
  A magnitude is a float32 when rounding leaves it as it is and it lies below
  \<open>2 ^ 128\<close>; a real number is representable when its magnitude is.
\<close>

definition representable :: "real \<Rightarrow> bool" where
  "representable r \<longleftrightarrow> round_mag 23 (- 126) \<bar>r\<bar> = \<bar>r\<bar> \<and> \<bar>r\<bar> < 2 ^ 128"


text \<open>The exact sum of the products of the components \<open>i, \<dots>, j - 1\<close>.\<close>

definition exact_dot :: "Vector \<Rightarrow> Vector \<Rightarrow> nat \<Rightarrow> nat \<Rightarrow> real" where
  "exact_dot a b i j = (\<Sum>k = i..<j. f32_val (a ! k) * f32_val (b ! k))"

text \<open>The magnitude that \<open>Normalize\<close> computes: the rounded root of the rounded sum of squares.\<close>

definition computed_magnitude :: "Vector \<Rightarrow> f32" where
  "computed_magnitude v =
     f32_sqrt (foldl (\<lambda>s val. f32_add s (f32_mul val val)) (Finite False 0) v)"

section \<open>Example stores\<close>

text \<open>
  A store of five records with unit vectors of dimension two, as \<open>AddItem\<close> builds it
  from the raw vectors \<open>[1,0]\<close>, \<open>[0,1]\<close>, \<open>[-3,0]\<close>, \<open>[2,0]\<close> and \<open>[5,0]\<close>.
\<close>

definition demo_store :: VectorStore where
  "demo_store =
     \<lparr>Records =
        [\<lparr>Record.ID = ''a'', Vector = [f32_of 1, f32_of 0], Quantized = [127, 0],
          Metadata = [''lang'' \<mapsto> ''en''], Namespace = ''ns1''\<rparr>,
         \<lparr>Record.ID = ''b'', Vector = [f32_of 0, f32_of 1], Quantized = [0, 127],
          Metadata = [''lang'' \<mapsto> ''fr''], Namespace = ''ns1''\<rparr>,
         \<lparr>Record.ID = ''c'', Vector = [f32_of (- 1), Finite True 0], Quantized = [- 127, 0],
          Metadata = [''lang'' \<mapsto> ''en''], Namespace = ''ns1''\<rparr>,
         \<lparr>Record.ID = ''d'', Vector = [f32_of 1, f32_of 0], Quantized = [127, 0],
          Metadata = [''lang'' \<mapsto> ''en''], Namespace = ''ns2''\<rparr>,
         \<lparr>Record.ID = ''e'', Vector = [f32_of 1, f32_of 0], Quantized = [127, 0],
          Metadata = Map.empty, Namespace = ''ns1''\<rparr>],
      IDMap = [''a'' \<mapsto> 0, ''b'' \<mapsto> 1, ''c'' \<mapsto> 2, ''d'' \<mapsto> 3, ''e'' \<mapsto> 4]\<rparr>"

text \<open>A store with one record of dimension one.\<close>

definition short_store :: VectorStore where
  "short_store =
     \<lparr>Records = [\<lparr>Record.ID = ''a'', Vector = [f32_of 1], Quantized = [127],
                  Metadata = Map.empty, Namespace = []\<rparr>],
      IDMap = [''a'' \<mapsto> 0]\<rparr>"

text \<open>
  A store with two records whose first component is NaN, as \<open>AddItem\<close> builds them
  from a raw vector with an infinite first component (\<open>Inf / Inf\<close> is NaN and
  \<open>1 / Inf\<close> is \<open>0\<close>), between records of scores \<open>1\<close> and \<open>0\<close> against
  the query \<open>[1, 0]\<close>.
\<close>

definition nan_store :: VectorStore where
  "nan_store =
     \<lparr>Records =
        [\<lparr>Record.ID = ''a'', Vector = [f32_of 1, f32_of 0], Quantized = [127, 0],
          Metadata = Map.empty, Namespace = []\<rparr>,
         \<lparr>Record.ID = ''b'', Vector = [NaN, f32_of 0], Quantized = [0, 0],
          Metadata = Map.empty, Namespace = []\<rparr>,
         \<lparr>Record.ID = ''c'', Vector = [NaN, f32_of 0], Quantized = [0, 0],
          Metadata = Map.empty, Namespace = []\<rparr>,
         \<lparr>Record.ID = ''d'', Vector = [f32_of 0, f32_of 1], Quantized = [0, 127],
          Metadata = Map.empty, Namespace = []\<rparr>],
      IDMap = [''a'' \<mapsto> 0, ''b'' \<mapsto> 1, ''c'' \<mapsto> 2, ''d'' \<mapsto> 3]\<rparr>"

section \<open>Example files and decoders\<close>

text \<open>
  A file system holding one file of bytes, and three behaviours of \<open>json.Unmarshal\<close>
  on it. \<open>decode_demo\<close> decodes the file into the records of \<open>demo_store\<close>.
  \<open>decode_duplicate\<close> stands for a well-formed file whose two records carry the same
  identifier. \<open>decode_mismatch\<close> stands for the file
  \<^verbatim>\<open>[{"id":"a","vector":[1]},{"id":"b","vector":"oops"}]\<close>, whose second record has a
  string where the vector is expected: \<open>json.Unmarshal\<close> skips that field, completes the
  decoding into the slice and returns an \<open>UnmarshalTypeError\<close>.
\<close>

definition demo_fs :: "string filesystem" where
  "demo_fs = \<lparr>files = [''vectors.json'' \<mapsto> ''[...]''], denied = {}\<rparr>"



definition decode_mismatch :: "string unmarshal" where
  "decode_mismatch data recs =
     (Some UnmarshalTypeError,
      [\<lparr>Record.ID = ''a'', Vector = [f32_of 1], Quantized = [],
        Metadata = Map.empty, Namespace = []\<rparr>,
       \<lparr>Record.ID = ''b'', Vector = [], Quantized = [],
        Metadata = Map.empty, Namespace = []\<rparr>])"

section \<open>Rounding\<close>

lemma round_even_of_int [simp]: "round_even (of_int n) = n"
  by (simp add: round_even_def)

lemma round_even_nonneg: "0 \<le> q \<Longrightarrow> 0 \<le> round_even q"
  by (auto simp: round_even_def Let_def)

lemma round_even_le: "q \<le> of_int N \<Longrightarrow> round_even q \<le> N"
proof -
  assume q: "q \<le> of_int N"
  then have f: "\<lfloor>q\<rfloor> \<le> N" by (simp add: floor_le_iff)
  show ?thesis
  proof (cases "\<lfloor>q\<rfloor> = N")
    case True
    then have "q - of_int \<lfloor>q\<rfloor> \<le> 0" using q by simp
    then show ?thesis using True by (simp add: round_even_def Let_def)
  next
    case False
    then have "\<lfloor>q\<rfloor> + 1 \<le> N" using f by simp
    then show ?thesis using f by (auto simp: round_even_def Let_def)
  qed
qed

lemma round_mag_zero [simp]: "round_mag p emin 0 = 0"
  by (simp add: round_mag_def)

lemma round_mag_nonneg: "0 \<le> r \<Longrightarrow> 0 \<le> round_mag p emin r"
  by (auto simp: round_mag_def Let_def intro!: mult_nonneg_nonneg round_even_nonneg divide_nonneg_pos)

lemma round_mag_at:
  assumes "0 < r" and "2 powr of_int e \<le> r" and "r < 2 powr (of_int e + 1)"
  shows "round_mag p emin r =
           2 powr (of_int (max e emin) - of_nat p)
           * of_int (round_even (r / 2 powr (of_int (max e emin) - of_nat p)))"
proof -
  have "\<lfloor>log 2 r\<rfloor> = e" using assms by (simp add: floor_log_eq_powr_iff)
  then show ?thesis using assms(1) by (simp add: round_mag_def Let_def)
qed

lemma pow2_powr: "2 powr (real_of_int (int n)) = (2::real) ^ n"
proof -
  have "2 powr real_of_int (int n) = 2 powr real n" by (simp only: of_int_of_nat_eq)
  also have "\<dots> = (2::real) ^ n" by (rule powr_realpow) simp
  finally show ?thesis .
qed

lemma round_mag_Ints:
  assumes x: "x \<in> \<int>" and nn: "0 \<le> x" and le: "x \<le> 2 ^ (Suc p)" and emin: "emin \<le> 0"
  shows "round_mag p emin x = x"
proof (cases "x = 0")
  case True
  then show ?thesis by simp
next
  case False
  then have pos: "0 < x" using nn by simp
  obtain n where n: "x = of_int n" using x by (auto elim: Ints_cases)
  have n1: "1 \<le> n" using pos n by simp
  define e where "e = \<lfloor>log 2 x\<rfloor>"
  have e: "2 powr of_int e \<le> x" "x < 2 powr (of_int e + 1)"
    using pos floor_log_eq_powr_iff [of x 2 e] by (simp_all add: e_def)
  have e0: "0 \<le> e"
  proof -
    have "log 2 1 \<le> log 2 x" using n1 n by (intro log_mono) simp_all
    then show ?thesis by (simp add: e_def)
  qed
  have ep: "e \<le> int (Suc p)"
  proof -
    have "(2::real) ^ Suc p = 2 powr real_of_int (int (Suc p))"
      by (simp only: pow2_powr)
    then have "2 powr real_of_int e \<le> 2 powr real_of_int (int (Suc p))"
      using e(1) le by linarith
    then show ?thesis by simp
  qed
  have me: "max e emin = e" using e0 emin by simp
  let ?ulp = "(2::real) powr (of_int e - of_nat p)"
  have r: "round_mag p emin x = ?ulp * of_int (round_even (x / ?ulp))"
    using round_mag_at [OF pos e] me by simp
  have ulp_pos: "0 < ?ulp" by simp
  have "x / ?ulp \<in> \<int>"
  proof (cases "e \<le> int p")
    case True
    then obtain d where d: "int p - e = int d" using nonneg_int_cases [of "int p - e"] by auto
    have "x / ?ulp = x * 2 powr (of_int (int p - e))"
      by (simp add: powr_diff field_simps)
    also have "\<dots> = x * 2 ^ d" using d by (simp add: powr_realpow)
    finally show ?thesis using n by simp
  next
    case False
    then have ee: "e = int (Suc p)" using ep by simp
    then have "2 ^ Suc p \<le> x" using e(1) by (simp only: pow2_powr)
    then have xe: "x = 2 ^ Suc p" using le by simp
    have "?ulp = 2" using ee by simp
    then have "x / ?ulp = 2 ^ p" using xe by simp
    then show ?thesis by simp
  qed
  then obtain q where q: "x / ?ulp = of_int q" by (auto elim: Ints_cases)
  then have "?ulp * of_int (round_even (x / ?ulp)) = ?ulp * (x / ?ulp)" by simp
  also have "\<dots> = x" using ulp_pos by simp
  finally show ?thesis using r by simp
qed

lemma round_mag_int32:
  "x \<in> \<int> \<Longrightarrow> 0 \<le> x \<Longrightarrow> x \<le> 16777216 \<Longrightarrow> round_mag 23 (- 126) x = x"
  using round_mag_Ints [of x 23 "- 126"] by simp

lemma round_mag_int64:
  "x \<in> \<int> \<Longrightarrow> 0 \<le> x \<Longrightarrow> x \<le> 9007199254740992 \<Longrightarrow> round_mag 52 (- 1022) x = x"
  using round_mag_Ints [of x 52 "- 1022"] by simp

lemma representable_Ints: "x \<in> \<int> \<Longrightarrow> \<bar>x\<bar> \<le> 16777216 \<Longrightarrow> representable x"
  using round_mag_int32 [of "\<bar>x\<bar>"] by (simp add: representable_def)

lemma f32_round_exact:
  "representable r \<Longrightarrow> 0 \<le> r \<Longrightarrow> f32_round s r = Finite s r"
  by (simp add: f32_round_def representable_def Let_def)

lemma f32_round_int:
  "x \<in> \<int> \<Longrightarrow> 0 \<le> x \<Longrightarrow> x \<le> 16777216 \<Longrightarrow> f32_round s x = Finite s x"
  using f32_round_exact [of x s] representable_Ints [of x] by simp

section \<open>The order of float32\<close>

lemma f32_lt_key: "x \<noteq> NaN \<Longrightarrow> y \<noteq> NaN \<Longrightarrow> f32_lt x y \<longleftrightarrow> f32_key x < f32_key y"
  by (cases x; cases y) auto

lemma f32_le_key: "x \<noteq> NaN \<Longrightarrow> y \<noteq> NaN \<Longrightarrow> f32_le x y \<longleftrightarrow> f32_key x \<le> f32_key y"
  by (cases x; cases y) auto

section \<open>Loops that fill a fresh slice\<close>

lemma fill_loop:
  "m \<le> length init \<Longrightarrow>
   foldl (\<lambda>res i. res[i := f i]) init [0..<m] = map f [0..<m] @ drop m init"
proof (induction m)
  case 0
  then show ?case by simp
next
  case (Suc m)
  then have "m < length init" by simp
  then have "(map f [0..<m] @ drop m init)[m := f m] = map f [0..<m] @ (drop m init)[0 := f m]"
    by (simp add: list_update_append)
  moreover have "(drop m init)[0 := f m] = f m # drop (Suc m) init"
    using \<open>m < length init\<close> by (metis Cons_nth_drop_Suc list_update_code(2))
  ultimately show ?case using Suc by simp
qed

lemma fill_loop_all:
  "foldl (\<lambda>res i. res[i := f i]) (replicate n z) [0..<n] = map f [0..<n]"
  using fill_loop [of n "replicate n z" f] by simp

lemma map_index_loop: "map (\<lambda>i. g (v ! i)) [0..<length v] = map g v"
  by (rule nth_equalityI) simp_all

section \<open>Normalize\<close>

lemma Normalize_eq:
  "Normalize v =
     (if f32_is_zero (computed_magnitude v) then v
      else map (\<lambda>x. f32_div x (computed_magnitude v)) v)"
  using map_index_loop [of "\<lambda>x. f32_div x (computed_magnitude v)" v]
  by (simp add: Normalize_def Let_def computed_magnitude_def fill_loop_all)

lemma Normalize_length [simp]: "length (Normalize v) = length v"
  by (simp add: Normalize_eq)

lemma sum_squares_zero:
  "list_all f32_is_zero v \<Longrightarrow>
   foldl (\<lambda>s val. f32_add s (f32_mul val val)) (Finite False 0) v = Finite False 0"
proof (induction v)
  case Nil
  then show ?case by simp
next
  case (Cons x v)
  then obtain s where "x = Finite s 0" by (cases x) auto
  then have "f32_add (Finite False 0) (f32_mul x x) = Finite False 0"
    by (simp add: f32_round_def)
  then show ?case using Cons by simp
qed

lemma computed_magnitude_zero: "list_all f32_is_zero v \<Longrightarrow> f32_is_zero (computed_magnitude v)"
  by (simp add: computed_magnitude_def sum_squares_zero)

text \<open>
  C8, as the code has it. The result of \<open>Normalize\<close> has the length of its input.
  \<open>Normalize\<close> returns its input unchanged when the magnitude it computes in float32
  (the rounded square root of the rounded sum of the rounded squares) compares equal to
  zero, as it does when every component is a zero, that is, when the Euclidean magnitude
  is exactly zero; otherwise the component of the result at every index is the float32
  quotient of the input's component by that computed magnitude.
\<close>

theorem Normalize_spec:
  "length (Normalize v) = length v \<and>
   (list_all f32_is_zero v \<longrightarrow> Normalize v = v) \<and>
   (f32_is_zero (computed_magnitude v) \<longrightarrow> Normalize v = v) \<and>
   (\<not> f32_is_zero (computed_magnitude v) \<longrightarrow>
      (\<forall>i<length v. Normalize v ! i = f32_div (v ! i) (computed_magnitude v)))"
  using computed_magnitude_zero [of v] by (simp add: Normalize_eq)

lemma round_mag_tiny:
  assumes "0 < r" "r < 1 / 2 ^ 150"
  shows "round_mag 23 (- 126) r = 0"
proof -
  have p150: "2 powr (- 150) = 1 / (2::real) ^ 150"
    using powr_realpow [of 2 150] by (simp add: powr_minus_divide)
  have p149: "2 powr (- 149) = 1 / (2::real) ^ 149"
    using powr_realpow [of 2 149] by (simp add: powr_minus_divide)
  have "log 2 r < log 2 (2 powr (- 150))" using assms p150 by (intro log_less) simp_all
  then have "log 2 r < - 150" by simp
  then have "\<lfloor>log 2 r\<rfloor> \<le> - 126" by (simp add: floor_le_iff)
  then have e: "max \<lfloor>log 2 r\<rfloor> (- 126) = - 126" by simp
  have "r * 2 ^ 149 < (1 / 2 ^ 150) * 2 ^ 149"
    using assms(2) by (intro mult_strict_right_mono) simp_all
  then have "r / (1 / 2 ^ 149) < 1 / 2" by simp
  then have q: "0 \<le> r / 2 powr (- 149)" "r / 2 powr (- 149) < 1 / 2"
    using assms(1) unfolding p149 by simp_all
  then have "\<lfloor>r / 2 powr (- 149)\<rfloor> = 0" using assms(1) by (simp add: floor_eq_iff)
  then have "round_even (r / 2 powr (- 149)) = 0" using q by (simp add: round_even_def Let_def)
  then show ?thesis using assms(1) e by (simp add: round_mag_def Let_def)
qed

lemma f32_round_tiny: "0 < r \<Longrightarrow> r < 1 / 2 ^ 150 \<Longrightarrow> f32_round s r = Finite s 0"
  by (simp add: f32_round_def round_mag_tiny)

lemmas f32_eval =
  f32_round_int round_mag_int64 f32_round_tiny Let_def computed_magnitude_def

theorem Normalize_spec_witness:
  "list_all f32_is_zero [f32_of 0, Finite True 0] \<and>
   f32_is_zero (computed_magnitude [f32_of 0, Finite True 0]) \<and>
   Normalize [f32_of 0, Finite True 0] = [f32_of 0, Finite True 0] \<and>
   \<not> f32_is_zero (computed_magnitude [f32_of 0, f32_of (- 2)]) \<and>
   Normalize [f32_of 0, f32_of (- 2)] = [f32_of 0, f32_of (- 1)]"
proof -
  have a: "computed_magnitude [f32_of 0, Finite True 0] = f32_of 0"
    by (simp add: f32_eval)
  have b: "computed_magnitude [f32_of 0, f32_of (- 2)] = f32_of 2"
    by (simp add: f32_eval)
  have "Normalize [f32_of 0, f32_of (- 2)] ! i = [f32_of 0, f32_of (- 1)] ! i" if "i < 2" for i
  proof -
    have "i = 0 \<or> i = 1" using that by auto
    then show ?thesis
      using Normalize_spec [of "[f32_of 0, f32_of (- 2)]"] b by (auto simp: f32_eval)
  qed
  then have "Normalize [f32_of 0, f32_of (- 2)] = [f32_of 0, f32_of (- 1)]"
    by (intro nth_equalityI) simp_all
  then show ?thesis
    using Normalize_spec [of "[f32_of 0, Finite True 0]"] a b by simp
qed

text \<open>
  The vector \<open>[2^-100, 0]\<close> has the Euclidean magnitude \<open>2^-100\<close>, not zero, yet the
  square underflows to zero in float32 and \<open>Normalize\<close> returns the vector unchanged,
  not divided by its magnitude.
\<close>

theorem Normalize_underflow_counterexample:
  "Normalize [f32_of (1 / 2 ^ 100), f32_of 0] = [f32_of (1 / 2 ^ 100), f32_of 0] \<and>
   sqrt ((1 / 2 ^ 100)\<^sup>2 + 0\<^sup>2) = 1 / 2 ^ 100 \<and>
   f32_div (f32_of (1 / 2 ^ 100)) (f32_of (1 / 2 ^ 100)) = f32_of 1"
proof -
  have sq: "(1 / 2 ^ 100) * (1 / 2 ^ 100) < 1 / (2::real) ^ 150" by simp
  have "computed_magnitude [f32_of (1 / 2 ^ 100), f32_of 0] = f32_of 0"
    using sq by (simp add: f32_eval)
  then have "Normalize [f32_of (1 / 2 ^ 100), f32_of 0] = [f32_of (1 / 2 ^ 100), f32_of 0]"
    by (simp add: Normalize_eq)
  moreover have "sqrt ((1 / 2 ^ 100)\<^sup>2 + 0\<^sup>2) = 1 / (2::real) ^ 100"
    by (simp add: real_sqrt_divide)
  moreover have "f32_div (f32_of (1 / 2 ^ 100)) (f32_of (1 / 2 ^ 100)) = f32_of 1"
    by (simp add: f32_eval)
  ultimately show ?thesis by simp
qed

section \<open>Quantize\<close>

lemma Quantize_eq: "Quantize v = map (\<lambda>x. int8_of_float (f32_mul x (Finite False 127))) v"
  using map_index_loop [of "\<lambda>x. int8_of_float (f32_mul x (Finite False 127))" v]
  by (simp add: Quantize_def fill_loop_all)

lemma int8_of_float_in_range:
  assumes "0 \<le> m" "m < 128"
  shows "sint (int8_of_float (Finite s m)) = (if s then - \<lfloor>m\<rfloor> else \<lfloor>m\<rfloor>)"
    and "- 127 \<le> sint (int8_of_float (Finite s m))"
    and "sint (int8_of_float (Finite s m)) \<le> 127"
proof -
  obtain n where n: "\<lfloor>m\<rfloor> = n" by simp
  have f: "0 \<le> n" "n \<le> 127" using assms n by (auto simp: floor_le_iff)
  have a: "signed_take_bit 7 n = n" "signed_take_bit 7 (- n) = - n"
    using f by (simp_all add: signed_take_bit_int_eq_self_iff)
  show "sint (int8_of_float (Finite s m)) = (if s then - \<lfloor>m\<rfloor> else \<lfloor>m\<rfloor>)"
    unfolding int8_of_float.simps n using f a by (simp add: signed_of_int)
  then show "- 127 \<le> sint (int8_of_float (Finite s m))"
    and "sint (int8_of_float (Finite s m)) \<le> 127"
    unfolding n using f by (simp_all split: if_splits)
qed

lemma round_mag_le_int:
  assumes pos: "0 < r" and le: "r \<le> of_int N" and small: "r < 2 ^ 23"
  shows "round_mag 23 (- 126) r \<le> of_int N"
proof -
  define e where "e = max \<lfloor>log 2 r\<rfloor> (- 126)"
  have "r < 2 powr 23" using small by simp
  then have "log 2 r < 23" using pos by (simp add: log_less_iff)
  then have "\<lfloor>log 2 r\<rfloor> \<le> 22" by (simp add: floor_le_iff)
  then have e23: "e \<le> 23" by (simp add: e_def)
  then obtain d where d: "23 - e = int d" using nonneg_int_cases [of "23 - e"] by auto
  let ?ulp = "(2::real) powr (of_int e - of_nat 23)"
  have ulp: "?ulp = 1 / 2 ^ d"
  proof -
    have "of_int e - of_nat 23 = - real_of_int (int d)" using d by simp
    then have "?ulp = 2 powr (- real_of_int (int d))" by simp
    also have "\<dots> = 1 / 2 powr real_of_int (int d)" by (simp add: powr_minus_divide)
    finally show ?thesis by (simp only: pow2_powr)
  qed
  have r: "round_mag 23 (- 126) r = ?ulp * of_int (round_even (r / ?ulp))"
    using pos by (simp add: round_mag_def Let_def e_def)
  have "r / ?ulp = r * 2 ^ d" unfolding ulp by simp
  moreover have "r * 2 ^ d \<le> of_int N * 2 ^ d" using le by (intro mult_right_mono) simp_all
  ultimately have "r / ?ulp \<le> of_int (N * 2 ^ d)" by simp
  then have "round_even (r / ?ulp) \<le> N * 2 ^ d" by (rule round_even_le)
  then have "real_of_int (round_even (r / ?ulp)) \<le> real_of_int (N * 2 ^ d)" by linarith
  then have "?ulp * real_of_int (round_even (r / ?ulp)) \<le> ?ulp * real_of_int (N * 2 ^ d)"
    by (intro mult_left_mono) simp_all
  also have "\<dots> = of_int N" unfolding ulp by simp
  finally show ?thesis using r by simp
qed

lemma f32_mul_127_unit:
  assumes "0 \<le> m" "m \<le> 1"
  shows "\<exists>p. f32_mul (Finite s m) (Finite False 127) = Finite s p \<and> 0 \<le> p \<and> p \<le> 127"
proof (cases "m = 0")
  case True
  then show ?thesis by (simp add: f32_round_def)
next
  case False
  then have pos: "0 < m * 127" using assms by simp
  have "m * 127 \<le> of_int 127" using assms by simp
  moreover have "m * 127 < 2 ^ 23" using assms by simp
  ultimately have le: "round_mag 23 (- 126) (m * 127) \<le> 127"
    using round_mag_le_int [OF pos, of 127] by simp
  have "0 \<le> round_mag 23 (- 126) (m * 127)" using pos by (intro round_mag_nonneg) simp
  then show ?thesis using le by (simp add: f32_round_def Let_def)
qed

text \<open>
  C6, as the code has it. \<open>Quantize\<close> keeps the length of its input. Where the
  float32 product of a component and \<open>127\<close> is finite with a magnitude below \<open>128\<close>,
  the result is that rounded product with its fraction discarded, a value in
  \<open>[-127, 127]\<close>; this is the case for every finite component of magnitude at most
  \<open>1\<close>. Nothing is clamped.
\<close>

theorem Quantize_truncates_in_range:
  "length (Quantize v) = length v \<and>
   (\<forall>i<length v. \<forall>s p.
      f32_mul (v ! i) (Finite False 127) = Finite s p \<and> 0 \<le> p \<and> p < 128 \<longrightarrow>
        sint (Quantize v ! i) = (if s then - \<lfloor>p\<rfloor> else \<lfloor>p\<rfloor>) \<and>
        - 127 \<le> sint (Quantize v ! i) \<and> sint (Quantize v ! i) \<le> 127) \<and>
   (\<forall>i<length v. \<forall>s m.
      v ! i = Finite s m \<and> 0 \<le> m \<and> m \<le> 1 \<longrightarrow>
        (\<exists>p. f32_mul (v ! i) (Finite False 127) = Finite s p \<and> 0 \<le> p \<and> p \<le> 127))"
proof (intro conjI allI impI)
  show "length (Quantize v) = length v" by (simp add: Quantize_eq)
next
  fix i s p
  assume i: "i < length v"
    and p: "f32_mul (v ! i) (Finite False 127) = Finite s p \<and> 0 \<le> p \<and> p < 128"
  have q: "Quantize v ! i = int8_of_float (Finite s p)" using i p by (simp add: Quantize_eq)
  show "sint (Quantize v ! i) = (if s then - \<lfloor>p\<rfloor> else \<lfloor>p\<rfloor>)"
    "- 127 \<le> sint (Quantize v ! i)" "sint (Quantize v ! i) \<le> 127"
    unfolding q using int8_of_float_in_range [of p s] p by simp_all
next
  fix i s m
  assume "i < length v" and "v ! i = Finite s m \<and> 0 \<le> m \<and> m \<le> 1"
  then show "\<exists>p. f32_mul (v ! i) (Finite False 127) = Finite s p \<and> 0 \<le> p \<and> p \<le> 127"
    using f32_mul_127_unit [of m s] by simp
qed

theorem Quantize_truncates_in_range_witness:
  "f32_mul ([f32_of 1, f32_of (- 1), f32_of (1 / 2)] ! 2) (Finite False 127) = Finite False (127 / 2) \<and>
   sint (Quantize [f32_of 1, f32_of (- 1), f32_of (1 / 2)] ! 2) = 63 \<and>
   sint (Quantize [f32_of 1, f32_of (- 1), f32_of (1 / 2)] ! 1) = - 127"
proof -
  have half: "round_mag 23 (- 126) (127 / 2) = 127 / 2"
  proof -
    have b: "2 powr real_of_int 5 \<le> (127 / 2 :: real)" "(127 / 2 :: real) < 2 powr (real_of_int 5 + 1)"
      by simp_all
    have e: "real_of_int (max 5 (- 126)) - real 23 = - 18" by simp
    have u: "(2::real) powr (- 18) = 1 / 262144"
      using powr_realpow [of 2 18] by (simp add: powr_minus_divide)
    have q: "(127 / 2) / (1 / 262144) = real_of_int 16646144" by simp
    have "round_mag 23 (- 126) (127 / 2)
            = (1 / 262144) * real_of_int (round_even ((127 / 2) / (1 / 262144)))"
      using round_mag_at [OF _ b, of 23 "- 126"] unfolding e u by simp
    also have "\<dots> = (1 / 262144) * real_of_int 16646144"
      unfolding q by (simp only: round_even_of_int)
    finally show ?thesis by simp
  qed
  have m2: "f32_mul ([f32_of 1, f32_of (- 1), f32_of (1 / 2)] ! 2) (Finite False 127)
              = Finite False (127 / 2)"
    using half by (simp add: f32_round_def)
  have m1: "f32_mul ([f32_of 1, f32_of (- 1), f32_of (1 / 2)] ! 1) (Finite False 127)
              = Finite True 127"
    by (simp add: f32_eval)
  let ?v = "[f32_of 1, f32_of (- 1), f32_of (1 / 2)]"
  have f: "\<lfloor>127 / 2 :: real\<rfloor> = 63" by simp
  have T: "\<forall>i<length ?v. \<forall>s p.
      f32_mul (?v ! i) (Finite False 127) = Finite s p \<and> 0 \<le> p \<and> p < 128 \<longrightarrow>
        sint (Quantize ?v ! i) = (if s then - \<lfloor>p\<rfloor> else \<lfloor>p\<rfloor>) \<and>
        - 127 \<le> sint (Quantize ?v ! i) \<and> sint (Quantize ?v ! i) \<le> 127"
    using Quantize_truncates_in_range [of ?v] by blast
  have "sint (Quantize ?v ! 2) = (if False then - \<lfloor>127 / 2 :: real\<rfloor> else \<lfloor>127 / 2 :: real\<rfloor>)"
    using T [rule_format, of 2 False "127 / 2"] m2 by simp
  then have r2: "sint (Quantize ?v ! 2) = 63" using f by simp
  have "sint (Quantize ?v ! 1) = (if True then - \<lfloor>127 :: real\<rfloor> else \<lfloor>127 :: real\<rfloor>)"
    using T [rule_format, of 1 True 127] m1 by simp
  then have r1: "sint (Quantize ?v ! 1) = - 127" by simp
  show ?thesis using m2 r1 r2 by blast
qed

text \<open>
  The component \<open>2\<close> lies beyond the boundary: the product \<open>254\<close> is converted to
  \<open>-2\<close>, not clamped to \<open>127\<close>.
\<close>

theorem Quantize_wraps_counterexample:
  "map sint (Quantize [f32_of 2]) = [- 2] \<and> map sint (Quantize [f32_of 2]) \<noteq> [127]"
  by (simp add: Quantize_def f32_eval)

section \<open>The heap functions keep the heap order\<close>

lemma Swap_length [simp]: "length (Swap h i j) = length h"
  by (simp add: Swap_def)

lemma Swap_nth:
  "i < length h \<Longrightarrow> j < length h \<Longrightarrow> c < length h \<Longrightarrow>
   Swap h i j ! c = (if c = j then h ! i else if c = i then h ! j else h ! c)"
  by (simp add: Swap_def nth_list_update)

lemma Swap_mset: "i < length h \<Longrightarrow> j < length h \<Longrightarrow> mset (Swap h i j) = mset h"
  unfolding Swap_def by (metis mset_swap)

lemma no_NaN_mset: "mset h' = mset h \<Longrightarrow> no_NaN h' = no_NaN h"
  unfolding no_NaN_def list_all_iff by (metis set_mset_mset)

lemma no_NaN_nth: "no_NaN h \<Longrightarrow> i < length h \<Longrightarrow> Score (h ! i) \<noteq> NaN"
  by (simp add: no_NaN_def list_all_length)

lemma Less_key:
  "no_NaN h \<Longrightarrow> i < length h \<Longrightarrow> j < length h \<Longrightarrow>
   Less h i j \<longleftrightarrow> score_key (h ! i) < score_key (h ! j)"
  using no_NaN_nth [of h i] no_NaN_nth [of h j] by (simp add: Less_def score_key_def f32_lt_key)

lemma heap_except_up_step:
  assumes ex: "heap_except_up h j" and j: "j < length h" and pos: "0 < j"
    and lt: "score_key (h ! j) < score_key (h ! ((j - 1) div 2))"
  shows "heap_except_up (Swap h ((j - 1) div 2) j) ((j - 1) div 2)"
proof -
  let ?i = "(j - 1) div 2"
  let ?h = "Swap h ?i j"
  have i: "?i < j" using pos by arith
  have il: "?i < length h" using i j by simp
  have A: "\<And>c. 0 < c \<Longrightarrow> c < length h \<Longrightarrow> c \<noteq> j \<Longrightarrow> score_key (h ! ((c - 1) div 2)) \<le> score_key (h ! c)"
    using ex by (simp add: heap_except_up_def)
  have B: "\<And>c. 0 < c \<Longrightarrow> c < length h \<Longrightarrow> (c - 1) div 2 = j \<Longrightarrow>
             score_key (h ! ?i) \<le> score_key (h ! c)"
    using ex pos by (simp add: heap_except_up_def)
  have nth: "\<And>c. c < length h \<Longrightarrow> ?h ! c = (if c = j then h ! ?i else if c = ?i then h ! j else h ! c)"
    using Swap_nth [OF il j] by simp
  have 1: "score_key (?h ! ((c - 1) div 2)) \<le> score_key (?h ! c)"
    if c: "0 < c" "c < length h" "c \<noteq> ?i" for c
  proof -
    have pc: "(c - 1) div 2 < c" using c by arith
    then have pl: "(c - 1) div 2 < length h" using c by simp
    show ?thesis
    proof (cases "c = j")
      case True
      then show ?thesis using nth [OF j] nth [OF il] i lt by simp
    next
      case False
      note cj = this
      show ?thesis
      proof (cases "(c - 1) div 2 = ?i")
        case True
        have "score_key (h ! j) \<le> score_key (h ! c)" using A [OF c(1) c(2) cj] True lt by simp
        then show ?thesis using nth [OF c(2)] nth [OF il] True cj c(3) i by simp
      next
        case False
        note pi = this
        show ?thesis
        proof (cases "(c - 1) div 2 = j")
          case True
          then show ?thesis using B [OF c(1) c(2) True] nth [OF c(2)] nth [OF j] cj c(3) i by simp
        next
          case False
          then show ?thesis using A [OF c(1) c(2) cj] nth [OF c(2)] nth [OF pl] cj c(3) pi by simp
        qed
      qed
    qed
  qed
  have 2: "score_key (?h ! ((?i - 1) div 2)) \<le> score_key (?h ! c)"
    if c: "0 < c" "c < length h" "(c - 1) div 2 = ?i" "0 < ?i" for c
  proof -
    have ppi: "(?i - 1) div 2 < ?i" using c(4) by arith
    then have ppl: "(?i - 1) div 2 < length h" using il by simp
    have ci: "c \<noteq> ?i" using c(1) c(3) by arith
    have up: "score_key (h ! ((?i - 1) div 2)) \<le> score_key (h ! ?i)"
      using A [OF c(4) il] i by simp
    have e: "?h ! ((?i - 1) div 2) = h ! ((?i - 1) div 2)"
      using nth [OF ppl] ppi i by simp
    show ?thesis
    proof (cases "c = j")
      case True
      then show ?thesis using e up nth [OF j] by simp
    next
      case False
      then have "score_key (h ! ?i) \<le> score_key (h ! c)" using A [OF c(1) c(2) False] c(3) by simp
      then show ?thesis using e up nth [OF c(2)] False ci by simp
    qed
  qed
  show ?thesis
    unfolding heap_except_up_def using 1 2 by simp
qed

lemma heap_up_shape:
  "j < length h \<Longrightarrow> length (heap_up h j) = length h \<and> mset (heap_up h j) = mset h"
proof (induction h j rule: heap_up.induct)
  case (1 h j)
  let ?i = "(j - 1) div 2"
  show ?case
  proof (cases "?i = j \<or> \<not> Less h j ?i")
    case True
    then have "heap_up h j = h" by (subst heap_up.simps) (simp add: Let_def)
    then show ?thesis by simp
  next
    case False
    then have pos: "0 < j" by (cases j) auto
    have i: "?i < j" using pos by arith
    have il: "?i < length h" using i "1.prems"(1) by simp
    have step: "heap_up h j = heap_up (Swap h ?i j) ?i"
      using False by (subst heap_up.simps) (simp add: Let_def)
    have "length (heap_up (Swap h ?i j) ?i) = length (Swap h ?i j) \<and>
          mset (heap_up (Swap h ?i j) ?i) = mset (Swap h ?i j)"
      using "1.IH" [OF refl False] il by simp
    then show ?thesis using step Swap_mset [OF il "1.prems"(1)] by simp
  qed
qed

lemma heap_up_correct:
  "j < length h \<Longrightarrow> no_NaN h \<Longrightarrow> heap_except_up h j \<Longrightarrow> is_heap (length h) (heap_up h j)"
proof (induction h j rule: heap_up.induct)
  case (1 h j)
  let ?i = "(j - 1) div 2"
  have il0: "?i < length h" using "1.prems"(1) by arith
  note less = Less_key [OF "1.prems"(2) "1.prems"(1) il0]
  show ?case
  proof (cases "?i = j \<or> \<not> Less h j ?i")
    case True
    then have stop: "heap_up h j = h" by (subst heap_up.simps) (simp add: Let_def)
    have "score_key (h ! ((c - 1) div 2)) \<le> score_key (h ! c)" if c: "0 < c" "c < length h" for c
    proof (cases "c = j")
      case False
      then show ?thesis using "1.prems"(3) c by (simp add: heap_except_up_def)
    next
      case cj: True
      have "?i \<noteq> j" using c cj by arith
      then show ?thesis using True cj less by simp
    qed
    then show ?thesis using stop by (simp add: is_heap_def)
  next
    case False
    then have pos: "0 < j" by (cases j) auto
    have lt: "score_key (h ! j) < score_key (h ! ?i)" using False less by simp
    have i: "?i < j" using pos by arith
    have il: "?i < length h" using i "1.prems"(1) by simp
    have step: "heap_up h j = heap_up (Swap h ?i j) ?i"
      using False by (subst heap_up.simps) (simp add: Let_def)
    have ex: "heap_except_up (Swap h ?i j) ?i"
      using heap_except_up_step [OF "1.prems"(3) "1.prems"(1) pos lt] .
    have nn: "no_NaN (Swap h ?i j)"
      using no_NaN_mset [OF Swap_mset [OF il "1.prems"(1)]] "1.prems"(2) by simp
    have "is_heap (length (Swap h ?i j)) (heap_up (Swap h ?i j) ?i)"
      using "1.IH" [OF refl False _ nn ex] il by simp
    then show ?thesis using step by simp
  qed
qed

lemma heap_except_down_step:
  assumes ex: "heap_except_down n h i" and n: "n \<le> length h" and j1: "2 * i + 1 < n"
    and nn: "no_NaN h"
    and jdef: "j = (if 2 * i + 1 + 1 < n \<and> Less h (2 * i + 1 + 1) (2 * i + 1) then 2 * i + 1 + 1 else 2 * i + 1)"
    and lt: "score_key (h ! j) < score_key (h ! i)"
  shows "heap_except_down n (Swap h i j) j"
proof -
  let ?h = "Swap h i j"
  have jn: "j < n" using jdef j1 by (simp split: if_splits)
  have ij: "i < j" using jdef by (simp split: if_splits)
  have pj: "(j - 1) div 2 = i" using jdef by (simp split: if_splits)
  have jl: "j < length h" and il: "i < length h" using jn ij n by simp_all
  have A: "\<And>c. 0 < c \<Longrightarrow> c < n \<Longrightarrow> (c - 1) div 2 \<noteq> i \<Longrightarrow>
             score_key (h ! ((c - 1) div 2)) \<le> score_key (h ! c)"
    using ex by (simp add: heap_except_down_def)
  have B: "\<And>c. 0 < c \<Longrightarrow> c < n \<Longrightarrow> (c - 1) div 2 = i \<Longrightarrow> 0 < i \<Longrightarrow>
             score_key (h ! ((i - 1) div 2)) \<le> score_key (h ! c)"
    using ex by (simp add: heap_except_down_def)
  have nth: "\<And>c. c < length h \<Longrightarrow> ?h ! c = (if c = j then h ! i else if c = i then h ! j else h ! c)"
    using Swap_nth [OF il jl] by simp
  have least: "score_key (h ! j) \<le> score_key (h ! c)" if c: "0 < c" "c < n" "(c - 1) div 2 = i" for c
  proof -
    have "c = 2 * i + 1 \<or> c = 2 * i + 1 + 1" using c by arith
    moreover have "Less h (2 * i + 1 + 1) (2 * i + 1) \<longleftrightarrow>
        score_key (h ! (2 * i + 1 + 1)) < score_key (h ! (2 * i + 1))" if "2 * i + 1 + 1 < n"
      using Less_key [OF nn, of "2 * i + 1 + 1" "2 * i + 1"] that n by simp
    ultimately show ?thesis using jdef c(2) by (auto split: if_splits)
  qed
  have 1: "score_key (?h ! ((c - 1) div 2)) \<le> score_key (?h ! c)"
    if c: "0 < c" "c < n" "(c - 1) div 2 \<noteq> j" for c
  proof -
    have cl: "c < length h" using c n by simp
    have pc: "(c - 1) div 2 < c" using c by arith
    then have pl: "(c - 1) div 2 < length h" using cl by simp
    show ?thesis
    proof (cases "c = j")
      case True
      then show ?thesis using nth [OF jl] nth [OF il] pj ij lt by simp
    next
      case cj: False
      show ?thesis
      proof (cases "(c - 1) div 2 = i")
        case True
        have "c \<noteq> i" using pc True by simp
        then show ?thesis using least [OF c(1) c(2) True] nth [OF cl] nth [OF il] True cj ij by simp
      next
        case pi: False
        show ?thesis
        proof (cases "c = i")
          case True
          then have ipos: "0 < i" using c by simp
          have "score_key (h ! ((i - 1) div 2)) \<le> score_key (h ! j)"
            using B [OF _ jn pj ipos] ij by simp
          moreover have "(i - 1) div 2 < i" using ipos by arith
          ultimately show ?thesis using True nth [OF il] nth [OF pl] ij by simp
        next
          case False
          then show ?thesis
            using A [OF c(1) c(2) pi] nth [OF cl] nth [OF pl] cj pi c(3) by simp
        qed
      qed
    qed
  qed
  have 2: "score_key (?h ! ((j - 1) div 2)) \<le> score_key (?h ! c)"
    if c: "0 < c" "c < n" "(c - 1) div 2 = j" for c
  proof -
    have cl: "c < length h" using c n by simp
    have "j < c" using c by arith
    then have "c \<noteq> j" "c \<noteq> i" using ij by simp_all
    moreover have "score_key (h ! j) \<le> score_key (h ! c)"
      using A [OF c(1) c(2)] c(3) ij by simp
    ultimately show ?thesis using nth [OF cl] nth [OF il] pj ij by simp
  qed
  show ?thesis
    unfolding heap_except_down_def using 1 2 by simp
qed

lemma heap_down_shape:
  "n \<le> length h \<Longrightarrow>
   length (heap_down h i n) = length h \<and> mset (heap_down h i n) = mset h \<and>
   (\<forall>c. n \<le> c \<longrightarrow> heap_down h i n ! c = h ! c)"
proof (induction h i n rule: heap_down.induct)
  case (1 h i n)
  define j where "j = (if 2 * i + 1 + 1 < n \<and> Less h (2 * i + 1 + 1) (2 * i + 1)
                       then 2 * i + 1 + 1 else 2 * i + 1)"
  have unfold: "heap_down h i n =
      (if 2 * i + 1 \<ge> n then h else if \<not> Less h j i then h else heap_down (Swap h i j) j n)"
    unfolding j_def by (subst heap_down.simps) (simp add: Let_def)
  show ?case
  proof (cases "2 * i + 1 \<ge> n \<or> \<not> Less h j i")
    case True
    then have "heap_down h i n = h" using unfold by auto
    then show ?thesis by simp
  next
    case False
    then have inside: "\<not> 2 * i + 1 \<ge> n" and True: "Less h j i" by simp_all
    have j1: "2 * i + 1 < n" using inside by simp
    have jn: "j < n" and ij: "i < j" using j1 by (simp_all add: j_def)
    have step: "heap_down h i n = heap_down (Swap h i j) j n"
      using inside True unfold by simp
    have il: "i < length h" and jl: "j < length h" using jn ij "1.prems"(1) by simp_all
    have IH: "length (heap_down (Swap h i j) j n) = length (Swap h i j) \<and>
            mset (heap_down (Swap h i j) j n) = mset (Swap h i j) \<and>
            (\<forall>c. n \<le> c \<longrightarrow> heap_down (Swap h i j) j n ! c = Swap h i j ! c)"
      using "1.IH" [OF refl inside j_def] True "1.prems"(1) by simp
    have out: "Swap h i j ! c = h ! c" if "n \<le> c" for c
      using that jn ij by (simp add: Swap_def)
    show ?thesis using step IH Swap_mset [OF il jl] out by simp
  qed
qed

lemma heap_down_correct:
  "n \<le> length h \<Longrightarrow> no_NaN h \<Longrightarrow> heap_except_down n h i \<Longrightarrow> is_heap n (heap_down h i n)"
proof (induction h i n rule: heap_down.induct)
  case (1 h i n)
  define j where "j = (if 2 * i + 1 + 1 < n \<and> Less h (2 * i + 1 + 1) (2 * i + 1)
                       then 2 * i + 1 + 1 else 2 * i + 1)"
  have unfold: "heap_down h i n =
      (if 2 * i + 1 \<ge> n then h else if \<not> Less h j i then h else heap_down (Swap h i j) j n)"
    unfolding j_def by (subst heap_down.simps) (simp add: Let_def)
  have A: "\<And>c. 0 < c \<Longrightarrow> c < n \<Longrightarrow> (c - 1) div 2 \<noteq> i \<Longrightarrow>
             score_key (h ! ((c - 1) div 2)) \<le> score_key (h ! c)"
    using "1.prems"(3) by (simp add: heap_except_down_def)
  show ?case
  proof (cases "2 * i + 1 \<ge> n")
    case True
    then have stop: "heap_down h i n = h" using unfold by simp
    have "score_key (h ! ((c - 1) div 2)) \<le> score_key (h ! c)" if c: "0 < c" "c < n" for c
    proof -
      have "(c - 1) div 2 \<noteq> i" using True c by arith
      then show ?thesis using A c by simp
    qed
    then show ?thesis using stop by (simp add: is_heap_def)
  next
    case inside: False
    then have j1: "2 * i + 1 < n" by simp
    have jn: "j < n" and ij: "i < j" using j1 by (simp_all add: j_def)
    have il: "i < length h" and jl: "j < length h" using jn ij "1.prems"(1) by simp_all
    note less = Less_key [OF "1.prems"(2) jl il]
    have less2: "Less h (2 * i + 1 + 1) (2 * i + 1) \<longleftrightarrow>
        score_key (h ! (2 * i + 1 + 1)) < score_key (h ! (2 * i + 1))" if "2 * i + 1 + 1 < n"
      using Less_key [OF "1.prems"(2), of "2 * i + 1 + 1" "2 * i + 1"] that "1.prems"(1) by simp
    show ?thesis
    proof (cases "Less h j i")
      case False
      then have stop: "heap_down h i n = h" using unfold by simp
      have nlt: "\<not> score_key (h ! j) < score_key (h ! i)" using False less by simp
      have "score_key (h ! ((c - 1) div 2)) \<le> score_key (h ! c)" if c: "0 < c" "c < n" for c
      proof (cases "(c - 1) div 2 = i")
        case pi: True
        then have "c = 2 * i + 1 \<or> c = 2 * i + 1 + 1" using c by arith
        then show ?thesis using nlt pi c(2) less2 by (auto simp: j_def split: if_splits)
      next
        case False
        then show ?thesis using A c by simp
      qed
      then show ?thesis using stop by (simp add: is_heap_def)
    next
      case True
      then have lt: "score_key (h ! j) < score_key (h ! i)" using less by simp
      have step: "heap_down h i n = heap_down (Swap h i j) j n"
        using inside True unfold by simp
      have ex: "heap_except_down n (Swap h i j) j"
        using heap_except_down_step [OF "1.prems"(3) "1.prems"(1) j1 "1.prems"(2) j_def lt] .
      have nn: "no_NaN (Swap h i j)"
        using no_NaN_mset [OF Swap_mset [OF il jl]] "1.prems"(2) by simp
      have "is_heap n (heap_down (Swap h i j) j n)"
        using "1.IH" [OF refl inside j_def _ _ nn ex] True "1.prems"(1) by simp
      then show ?thesis using step by simp
    qed
  qed
qed

section \<open>Push, Pop and the bounded insertion\<close>

lemma is_heap_root_least: "is_heap n h \<Longrightarrow> c < n \<Longrightarrow> score_key (h ! 0) \<le> score_key (h ! c)"
proof (induction c rule: less_induct)
  case (less c)
  show ?case
  proof (cases "c = 0")
    case True
    then show ?thesis by simp
  next
    case False
    then have p: "(c - 1) div 2 < c" by arith
    have "score_key (h ! 0) \<le> score_key (h ! ((c - 1) div 2))"
      using less.IH [OF p less.prems(1)] p less.prems(2) by simp
    moreover have "score_key (h ! ((c - 1) div 2)) \<le> score_key (h ! c)"
      using less.prems False by (simp add: is_heap_def)
    ultimately show ?thesis by simp
  qed
qed

lemma is_heap_least:
  assumes "is_heap (length h) h" "x \<in> set h"
  shows "score_key (h ! 0) \<le> score_key x"
proof -
  obtain c where "c < length h" "h ! c = x" using assms(2) by (auto simp: in_set_conv_nth)
  then show ?thesis using is_heap_root_least [OF assms(1)] by auto
qed

lemma heap_Push_shape:
  "length (heap_Push h x) = Suc (length h) \<and> mset (heap_Push h x) = add_mset x (mset h)"
  using heap_up_shape [of "length h" "h @ [x]"]
  by (simp add: heap_Push_def ResultHeap_Push_def Let_def)

lemma no_NaN_Push: "no_NaN (heap_Push h x) \<longleftrightarrow> no_NaN h \<and> Score x \<noteq> NaN"
proof -
  have "set (heap_Push h x) = insert x (set h)"
    using heap_Push_shape [of h x] by (metis set_mset_mset set_mset_add_mset_insert)
  then show ?thesis by (auto simp: no_NaN_def list_all_iff)
qed

lemma heap_Push_correct:
  assumes "is_heap (length h) h" and nn: "no_NaN h" "Score x \<noteq> NaN"
  shows "is_heap (length (heap_Push h x)) (heap_Push h x)"
proof -
  let ?h = "h @ [x]"
  have ex: "heap_except_up ?h (length h)"
  proof -
    have "score_key (?h ! ((c - 1) div 2)) \<le> score_key (?h ! c)"
      if c: "0 < c" "c < length ?h" "c \<noteq> length h" for c
    proof -
      have cl: "c < length h" using c by simp
      moreover have "(c - 1) div 2 < length h" using cl by arith
      ultimately show ?thesis using assms c(1) by (simp add: is_heap_def nth_append)
    qed
    moreover have "\<not> (0 < c \<and> c < length ?h \<and> (c - 1) div 2 = length h)" for c
      by (simp; arith)
    ultimately show ?thesis unfolding heap_except_up_def by blast
  qed
  have nn': "no_NaN ?h" using nn by (simp add: no_NaN_def)
  have "is_heap (length ?h) (heap_up ?h (length h))"
    using heap_up_correct [OF _ nn' ex] by simp
  then show ?thesis using heap_up_shape [of "length h" ?h]
    by (simp add: heap_Push_def ResultHeap_Push_def Let_def)
qed

lemma heap_Pop_shape:
  assumes ne: "h \<noteq> []"
  shows "\<exists>h'. heap_Pop h = Inr (h ! 0, h') \<and> Suc (length h') = length h \<and>
              mset h = add_mset (h ! 0) (mset h') \<and>
              h' = butlast (heap_down (Swap h 0 (length h - 1)) 0 (length h - 1))"
proof -
  define n where "n = length h - 1"
  have n: "n < length h" using ne by (simp add: n_def)
  let ?h1 = "Swap h 0 n"
  let ?h2 = "heap_down ?h1 0 n"
  have l0: "0 < length h" using ne by simp
  have nth1: "\<And>c. c < length h \<Longrightarrow> ?h1 ! c = (if c = n then h ! 0 else if c = 0 then h ! n else h ! c)"
    using Swap_nth [OF l0 n] by simp
  have d: "length ?h2 = length ?h1 \<and> mset ?h2 = mset ?h1 \<and>
           (\<forall>c. n \<le> c \<longrightarrow> ?h2 ! c = ?h1 ! c)"
    using heap_down_shape [of n ?h1 0] n by simp
  then have len2: "length ?h2 = length h" by simp
  then have ne2: "?h2 \<noteq> []" using ne by auto
  have "last ?h2 = ?h2 ! n" using ne2 len2 by (simp add: last_conv_nth n_def)
  also have "\<dots> = ?h1 ! n" using d by simp
  also have "\<dots> = h ! 0" using nth1 [OF n] by simp
  finally have last: "last ?h2 = h ! 0" .
  have "mset ?h2 = mset h" using d Swap_mset [OF l0 n] by simp
  moreover have "mset ?h2 = add_mset (last ?h2) (mset (butlast ?h2))"
    using ne2 by (metis append_butlast_last_id mset.simps(2) mset_append union_mset_add_mset_right add.right_neutral mset.simps(1))
  ultimately have ms: "mset h = add_mset (h ! 0) (mset (butlast ?h2))" using last by simp
  have "heap_Pop h = Inr (h ! 0, butlast ?h2)"
    using ne ne2 last by (simp add: heap_Pop_def ResultHeap_Pop_def Let_def n_def)
  moreover have "Suc (length (butlast ?h2)) = length h" using len2 ne by simp
  ultimately show ?thesis using ms unfolding n_def by blast
qed

lemma heap_Pop_correct:
  assumes ne: "h \<noteq> []" and hp: "is_heap (length h) h" and nn: "no_NaN h"
    and pop: "heap_Pop h = Inr (x, h')"
  shows "is_heap (length h') h' \<and> no_NaN h'"
proof -
  define n where "n = length h - 1"
  have n: "n < length h" using ne by (simp add: n_def)
  let ?h1 = "Swap h 0 n"
  let ?h2 = "heap_down ?h1 0 n"
  have l0: "0 < length h" using ne by simp
  have nth1: "\<And>c. c < length h \<Longrightarrow> ?h1 ! c = (if c = n then h ! 0 else if c = 0 then h ! n else h ! c)"
    using Swap_nth [OF l0 n] by simp
  have shape: "h' = butlast ?h2" "mset h = add_mset (h ! 0) (mset h')"
    using heap_Pop_shape [OF ne] pop unfolding n_def by auto
  have ex: "heap_except_down n ?h1 0"
  proof -
    have "score_key (?h1 ! ((c - 1) div 2)) \<le> score_key (?h1 ! c)"
      if c: "0 < c" "c < n" "(c - 1) div 2 \<noteq> 0" for c
    proof -
      have cl: "c < length h" using c n by simp
      have p: "(c - 1) div 2 < c" using c by arith
      then have pl: "(c - 1) div 2 < length h" using cl by simp
      have "score_key (h ! ((c - 1) div 2)) \<le> score_key (h ! c)"
        using hp c(1) cl by (simp add: is_heap_def)
      then show ?thesis using nth1 [OF cl] nth1 [OF pl] c p by simp
    qed
    then show ?thesis unfolding heap_except_down_def by blast
  qed
  have nn1: "no_NaN ?h1" using no_NaN_mset [OF Swap_mset [OF l0 n]] nn by simp
  have d: "is_heap n ?h2" using heap_down_correct [OF _ nn1 ex] n by simp
  have len2: "length ?h2 = length h" using heap_down_shape [of n ?h1 0] n by simp
  have bl: "butlast ?h2 = take n ?h2" using len2 by (simp add: butlast_conv_take n_def)
  have lb: "length (butlast ?h2) = n" using len2 by (simp add: n_def)
  have hp': "is_heap (length (butlast ?h2)) (butlast ?h2)"
  proof -
    have "score_key (butlast ?h2 ! ((c - 1) div 2)) \<le> score_key (butlast ?h2 ! c)"
      if c: "0 < c" "c < n" for c
    proof -
      have p: "(c - 1) div 2 < n" using c by arith
      have "score_key (?h2 ! ((c - 1) div 2)) \<le> score_key (?h2 ! c)"
        using d c unfolding is_heap_def by blast
      then show ?thesis using p c(2) by (simp only: bl nth_take)
    qed
    then show ?thesis unfolding is_heap_def lb by blast
  qed
  have "set h' \<subseteq> set h" using shape(2) by (metis set_mset_mset set_mset_add_mset_insert subset_insertI)
  then have "no_NaN h'" using nn by (auto simp: no_NaN_def list_all_iff)
  then show ?thesis using hp' shape(1) by simp
qed

lemma topk_offer_cases:
  assumes ok: "0 < k \<or> h \<noteq> []"
  shows "\<exists>h'. topk_offer k h res = Inr h'"
proof (cases "int (length h) < k")
  case True
  then show ?thesis by (simp add: topk_offer_def)
next
  case False
  then have ne: "h \<noteq> []" using ok by auto
  then obtain least rest where h: "h = least # rest" by (cases h) auto
  obtain h' where pop: "heap_Pop h = Inr (h ! 0, h')" using heap_Pop_shape [OF ne] by blast
  show ?thesis using False h pop by (simp add: topk_offer_def)
qed

lemma topk_offer_Inr:
  assumes run: "topk_offer k h res = Inr h'"
  shows "set h' \<subseteq> insert res (set h)" and "length h' \<le> max (length h) (nat k)"
    and "is_heap (length h) h \<Longrightarrow> no_NaN h \<Longrightarrow> Score res \<noteq> NaN \<Longrightarrow>
         is_heap (length h') h' \<and> no_NaN h'"
proof -
  have all: "set h' \<subseteq> insert res (set h) \<and> length h' \<le> max (length h) (nat k) \<and>
       (is_heap (length h) h \<and> no_NaN h \<and> Score res \<noteq> NaN \<longrightarrow>
          is_heap (length h') h' \<and> no_NaN h')"
  proof (cases "int (length h) < k")
    case True
    then have eq: "h' = heap_Push h res" using run by (simp add: topk_offer_def)
    have "set (heap_Push h res) = insert res (set h)"
      using heap_Push_shape [of h res] by (metis set_mset_mset set_mset_add_mset_insert)
    moreover have "length (heap_Push h res) \<le> nat k"
      using heap_Push_shape [of h res] True by simp
    ultimately show ?thesis using eq heap_Push_correct [of h res] no_NaN_Push [of h res] by auto
  next
    case False
    show ?thesis
    proof (cases h)
      case Nil
      then show ?thesis using run False by (simp add: topk_offer_def)
    next
      case (Cons least rest)
      then have ne: "h \<noteq> []" by simp
      show ?thesis
      proof (cases "f32_lt (Score least) (Score res)")
        case nogt: False
        then have "h' = h" using False Cons run by (simp add: topk_offer_def)
        then show ?thesis by auto
      next
        case True
        obtain h1 where pop: "heap_Pop h = Inr (h ! 0, h1)"
          and len: "Suc (length h1) = length h" and ms: "mset h = add_mset (h ! 0) (mset h1)"
          using heap_Pop_shape [OF ne] by blast
        have eq: "h' = heap_Push h1 res"
          using False True Cons pop run by (simp add: topk_offer_def)
        have "set h1 \<subseteq> set h" using ms by (metis set_mset_mset set_mset_add_mset_insert subset_insertI)
        moreover have "set (heap_Push h1 res) = insert res (set h1)"
          using heap_Push_shape [of h1 res] by (metis set_mset_mset set_mset_add_mset_insert)
        moreover have "length (heap_Push h1 res) = length h"
          using heap_Push_shape [of h1 res] len by simp
        moreover have "is_heap (length h') h' \<and> no_NaN h'"
          if "is_heap (length h) h" "no_NaN h" "Score res \<noteq> NaN"
          using heap_Pop_correct [OF ne that(1) that(2) pop] that(3)
            heap_Push_correct [of h1 res] no_NaN_Push [of h1 res] eq by simp
        ultimately show ?thesis using eq by auto
      qed
    qed
  qed
  show "set h' \<subseteq> insert res (set h)" and "length h' \<le> max (length h) (nat k)"
    and "is_heap (length h) h \<Longrightarrow> no_NaN h \<Longrightarrow> Score res \<noteq> NaN \<Longrightarrow>
         is_heap (length h') h' \<and> no_NaN h'"
    using all by simp_all
qed

lemma topk_offer_empty_panics: "k \<le> 0 \<Longrightarrow> topk_offer k [] res = Inl IndexOutOfRange"
  by (simp add: topk_offer_def)

section \<open>Emptying a heap gives a descending list\<close>

lemma sorted_desc_snoc:
  "sorted_desc (xs @ [x]) \<longleftrightarrow> sorted_desc xs \<and> (\<forall>y\<in>set xs. f32_le (Score x) (Score y))"
  by (auto simp: sorted_desc_def sorted_wrt_append)

lemma drain_loop_shape:
  "length h = n \<Longrightarrow> n \<le> length results \<Longrightarrow>
   \<exists>out. drain_loop h results n = Inr out \<and> length out = length results \<and>
         drop n out = drop n results \<and> mset (take n out) = mset h"
proof (induction n arbitrary: h results)
  case 0
  then show ?case by simp
next
  case (Suc idx)
  then have ne: "h \<noteq> []" by auto
  obtain h' where pop: "heap_Pop h = Inr (h ! 0, h')"
    and len: "Suc (length h') = length h" and ms: "mset h = add_mset (h ! 0) (mset h')"
    using heap_Pop_shape [OF ne] by blast
  let ?r = "results[idx := h ! 0]"
  have len': "length h' = idx" using len Suc.prems(1) by simp
  have idx: "idx < length results" using Suc.prems(2) by simp
  obtain out where out: "drain_loop h' ?r idx = Inr out" and lo: "length out = length ?r"
    and dr: "drop idx out = drop idx ?r" and mo: "mset (take idx out) = mset h'"
    using Suc.IH [OF len', of ?r] idx by auto
  have oi: "out ! idx = h ! 0"
  proof -
    have "out ! idx = drop idx out ! 0" using lo idx by simp
    also have "\<dots> = ?r ! idx" using dr idx by simp
    finally show ?thesis using idx by simp
  qed
  have tk: "take (Suc idx) out = take idx out @ [h ! 0]"
    using lo idx oi by (simp add: take_Suc_conv_app_nth)
  have "drop (Suc idx) out = drop (Suc idx) results"
  proof -
    have "drop (Suc idx) out = drop 1 (drop idx out)" by simp
    also have "\<dots> = drop 1 (drop idx ?r)" using dr by simp
    also have "\<dots> = drop (Suc idx) ?r" by simp
    finally show ?thesis by simp
  qed
  moreover have "mset (take (Suc idx) out) = mset h" using tk mo ms by simp
  moreover have "drain_loop h results (Suc idx) = Inr out" using pop out by simp
  ultimately show ?case using lo by auto
qed

lemma drain_loop_sorted:
  "is_heap (length h) h \<Longrightarrow> no_NaN h \<Longrightarrow> length h = n \<Longrightarrow> n \<le> length results \<Longrightarrow>
   drain_loop h results n = Inr out \<Longrightarrow> sorted_desc (take n out)"
proof (induction n arbitrary: h results)
  case 0
  then show ?case by (simp add: sorted_desc_def)
next
  case (Suc idx)
  then have ne: "h \<noteq> []" by auto
  obtain h' where pop: "heap_Pop h = Inr (h ! 0, h')"
    and len: "Suc (length h') = length h" and ms: "mset h = add_mset (h ! 0) (mset h')"
    using heap_Pop_shape [OF ne] by blast
  have hp': "is_heap (length h') h'" "no_NaN h'"
    using heap_Pop_correct [OF ne Suc.prems(1) Suc.prems(2) pop] by simp_all
  let ?r = "results[idx := h ! 0]"
  have len': "length h' = idx" using len Suc.prems(3) by simp
  have idx: "idx < length results" using Suc.prems(4) by simp
  have out: "drain_loop h' ?r idx = Inr out" using Suc.prems(5) pop by simp
  obtain out' where "drain_loop h' ?r idx = Inr out'" and "length out' = length ?r"
    and "drop idx out' = drop idx ?r" and "mset (take idx out') = mset h'"
    using drain_loop_shape [OF len', of ?r] idx by auto
  then have lo: "length out = length ?r" and dr: "drop idx out = drop idx ?r"
    and mo: "mset (take idx out) = mset h'" using out by simp_all
  have so: "sorted_desc (take idx out)" using Suc.IH [OF hp' len' _ out] idx by simp
  have oi: "out ! idx = h ! 0"
  proof -
    have "out ! idx = drop idx out ! 0" using lo idx by simp
    also have "\<dots> = ?r ! idx" using dr idx by simp
    finally show ?thesis using idx by simp
  qed
  have tk: "take (Suc idx) out = take idx out @ [h ! 0]"
    using lo idx oi by (simp add: take_Suc_conv_app_nth)
  have ge: "\<forall>y\<in>set (take idx out). f32_le (Score (h ! 0)) (Score y)"
  proof
    fix y assume "y \<in> set (take idx out)"
    then have "y \<in># mset h'" using mo by (metis set_mset_mset)
    then have y: "y \<in> set h" using ms by (metis set_mset_mset union_single_eq_member insert_iff set_mset_add_mset_insert)
    then have "score_key (h ! 0) \<le> score_key y" using is_heap_least [OF Suc.prems(1)] by simp
    moreover have "Score y \<noteq> NaN" using y Suc.prems(2) by (auto simp: no_NaN_def list_all_iff)
    moreover have "Score (h ! 0) \<noteq> NaN" using no_NaN_nth [OF Suc.prems(2), of 0] ne by simp
    ultimately show "f32_le (Score (h ! 0)) (Score y)" by (simp add: f32_le_key score_key_def)
  qed
  show ?case using tk so ge by (simp add: sorted_desc_snoc)
qed

lemma heap_drain_shape: "\<exists>out. heap_drain h = Inr out \<and> mset out = mset h"
proof -
  let ?z = "replicate (length h) \<lparr>SearchResult.ID = [], Score = Finite False 0\<rparr>"
  obtain out where "drain_loop h ?z (length h) = Inr out" "length out = length ?z"
    "mset (take (length h) out) = mset h"
    using drain_loop_shape [OF refl, of h ?z] by auto
  then show ?thesis by (auto simp: heap_drain_def)
qed

lemma heap_drain_sorted:
  assumes "is_heap (length h) h" "no_NaN h" "heap_drain h = Inr out"
  shows "sorted_desc out"
proof -
  let ?z = "replicate (length h) \<lparr>SearchResult.ID = [], Score = Finite False 0\<rparr>"
  have run: "drain_loop h ?z (length h) = Inr out" using assms(3) by (simp add: heap_drain_def)
  obtain out' where "drain_loop h ?z (length h) = Inr out'" "length out' = length ?z"
    using drain_loop_shape [OF refl, of h ?z] by auto
  then have "length out = length h" using run by simp
  then show ?thesis using drain_loop_sorted [OF assms(1) assms(2) refl _ run] by simp
qed

lemma heap_Init_empty [simp]: "heap_Init [] = []"
  by (simp add: heap_Init_def)

lemma is_heap_empty [simp]: "is_heap 0 h"
  by (simp add: is_heap_def)

lemma no_NaN_empty [simp]: "no_NaN []"
  by (simp add: no_NaN_def)

section \<open>DotProduct\<close>



lemma DotProduct_unrolled_total:
  "length a \<le> length b \<Longrightarrow> \<exists>r. DotProduct_unrolled a b i s = Inr r"
proof (induction a b i s rule: DotProduct_unrolled.induct)
  case (1 a b i s)
  show ?case
  proof (cases "int i < int (length a) - 3")
    case True
    then have inb: "i + 3 < length b" using "1.prems" by linarith
    show ?thesis
      using "1.IH" [OF True inb "1.prems"] True inb
      by (subst DotProduct_unrolled.simps) simp
  next
    case False
    then show ?thesis by (subst DotProduct_unrolled.simps) simp
  qed
qed

lemma DotProduct_remainder_total:
  "length a \<le> length b \<Longrightarrow> \<exists>r. DotProduct_remainder a b i s = Inr r"
proof (induction a b i s rule: DotProduct_remainder.induct)
  case (1 a b i s)
  show ?case
  proof (cases "i < length a")
    case True
    then have inb: "i < length b" using "1.prems" by simp
    show ?thesis
      using "1.IH" [OF True inb "1.prems"] True inb
      by (subst DotProduct_remainder.simps) simp
  next
    case False
    then show ?thesis by (subst DotProduct_remainder.simps) simp
  qed
qed

lemma DotProduct_total:
  assumes "length a \<le> length b"
  shows "\<exists>s. DotProduct a b = Inr s"
proof -
  obtain r where "DotProduct_unrolled a b 0 (Finite False 0) = Inr r"
    using DotProduct_unrolled_total [OF assms] by blast
  then show ?thesis using DotProduct_remainder_total [OF assms] by (simp add: DotProduct_def)
qed

text \<open>Operations whose exact result is representable return it.\<close>

lemma representable_zero [simp]: "representable 0"
  by (simp add: representable_def)




lemma exact_dot_empty [simp]: "exact_dot a b i i = 0"
  by (simp add: exact_dot_def)











lemma representable_small_int [simp]: "representable 1" "representable 2" "representable 3"
  "representable 4" "representable 5" "representable 6"
  by (simp_all add: representable_Ints)







section \<open>The worker's scan and the merge\<close>

lemma shard_scan_unfold:
  "shard_scan recs q k namespace filterKey filterVal j e h =
     (if j < e then
        (if length recs \<le> j then Inl IndexOutOfRange
         else if \<not> passes_filters namespace filterKey filterVal (recs ! j) then
           shard_scan recs q k namespace filterKey filterVal (j + 1) e h
         else (case DotProduct q (Vector (recs ! j)) of
                 Inl p \<Rightarrow> Inl p
               | Inr score \<Rightarrow>
                   (case topk_offer k h \<lparr>SearchResult.ID = Record.ID (recs ! j), Score = score\<rparr> of
                      Inl p \<Rightarrow> Inl p
                    | Inr h' \<Rightarrow> shard_scan recs q k namespace filterKey filterVal (j + 1) e h')))
      else Inr h)"
  by (subst shard_scan.simps) (simp add: Let_def passes_filters_def)

lemma result_ofI:
  assumes "j < length recs" "passes_filters namespace filterKey filterVal (recs ! j)"
    "DotProduct q (Vector (recs ! j)) = Inr score"
  shows "result_of recs q namespace filterKey filterVal
           \<lparr>SearchResult.ID = Record.ID (recs ! j), Score = score\<rparr>"
  unfolding result_of_def using assms by (intro exI [of _ j]) (auto simp: passes_filters_def)

lemma no_NaN_results:
  "\<forall>r. result_of recs q namespace filterKey filterVal r \<longrightarrow> Score r \<noteq> NaN \<Longrightarrow>
   \<forall>r\<in>set h. result_of recs q namespace filterKey filterVal r \<Longrightarrow> no_NaN h"
  by (simp add: no_NaN_def list_all_iff)

lemma shard_scan_Inr:
  "\<forall>r\<in>set h. result_of recs q namespace filterKey filterVal r \<Longrightarrow>
   shard_scan recs q k namespace filterKey filterVal j e h = Inr h' \<Longrightarrow>
   (\<forall>r\<in>set h'. result_of recs q namespace filterKey filterVal r) \<and>
   length h' \<le> max (length h) (nat k) \<and>
   ((\<forall>r. result_of recs q namespace filterKey filterVal r \<longrightarrow> Score r \<noteq> NaN) \<and>
    is_heap (length h) h \<longrightarrow> is_heap (length h') h')"
proof (induction "e - j" arbitrary: j h)
  case 0
  then have "\<not> j < e" by simp
  then have "shard_scan recs q k namespace filterKey filterVal j e h = Inr h"
    by (subst shard_scan_unfold) simp
  then show ?case using "0.prems" by simp
next
  case (Suc d)
  then have je: "j < e" and d: "d = e - (j + 1)" by simp_all
  note run = Suc.prems(2) [unfolded shard_scan_unfold [of recs q k namespace filterKey filterVal j e h]]
  show ?case
  proof (cases "length recs \<le> j")
    case True
    then show ?thesis using run je by simp
  next
    case inrange: False
    show ?thesis
    proof (cases "passes_filters namespace filterKey filterVal (recs ! j)")
      case False
      then have "shard_scan recs q k namespace filterKey filterVal (j + 1) e h = Inr h'"
        using run je inrange by simp
      then show ?thesis using Suc.hyps(1) [OF d Suc.prems(1)] by simp
    next
      case True
      obtain score where sc: "DotProduct q (Vector (recs ! j)) = Inr score"
        using run je inrange True by (cases "DotProduct q (Vector (recs ! j))") simp_all
      let ?res = "\<lparr>SearchResult.ID = Record.ID (recs ! j), Score = score\<rparr>"
      obtain h1 where off: "topk_offer k h ?res = Inr h1"
        using run je inrange True sc by (cases "topk_offer k h ?res") simp_all
      have next_run: "shard_scan recs q k namespace filterKey filterVal (j + 1) e h1 = Inr h'"
        using run je inrange True sc off by simp
      have h1: "set h1 \<subseteq> insert ?res (set h)" "length h1 \<le> max (length h) (nat k)"
        using topk_offer_Inr(1,2) [OF off] by simp_all
      have res: "result_of recs q namespace filterKey filterVal ?res"
        using result_ofI [OF _ True sc] inrange by simp
      then have all1: "\<forall>r\<in>set h1. result_of recs q namespace filterKey filterVal r"
        using h1(1) Suc.prems(1) by auto
      have hp1: "is_heap (length h1) h1"
        if nn: "\<forall>r. result_of recs q namespace filterKey filterVal r \<longrightarrow> Score r \<noteq> NaN"
          and hp: "is_heap (length h) h"
      proof -
        have "no_NaN h" using no_NaN_results [OF nn Suc.prems(1)] .
        moreover have "Score ?res \<noteq> NaN" using nn res by blast
        ultimately show ?thesis using topk_offer_Inr(3) [OF off hp] by simp
      qed
      have "(\<forall>r\<in>set h'. result_of recs q namespace filterKey filterVal r) \<and>
            length h' \<le> max (length h1) (nat k) \<and>
            ((\<forall>r. result_of recs q namespace filterKey filterVal r \<longrightarrow> Score r \<noteq> NaN) \<and>
             is_heap (length h1) h1 \<longrightarrow> is_heap (length h') h')"
        using Suc.hyps(1) [OF d all1 next_run] .
      then show ?thesis using h1(2) hp1 by auto
    qed
  qed
qed

lemma shard_scan_total:
  "0 < k \<Longrightarrow> e \<le> length recs \<Longrightarrow>
   \<forall>i<length recs. passes_filters namespace filterKey filterVal (recs ! i) \<longrightarrow>
      length q \<le> length (Vector (recs ! i)) \<Longrightarrow>
   \<exists>h'. shard_scan recs q k namespace filterKey filterVal j e h = Inr h'"
proof (induction "e - j" arbitrary: j h)
  case 0
  then show ?case by (subst shard_scan_unfold) simp
next
  case (Suc d)
  then have je: "j < e" and d: "d = e - (j + 1)" by simp_all
  then have inrange: "j < length recs" using Suc.prems(2) by simp
  show ?case
  proof (cases "passes_filters namespace filterKey filterVal (recs ! j)")
    case False
    then show ?thesis
      using Suc.hyps(1) [OF d Suc.prems(1) Suc.prems(2) Suc.prems(3), of ] je inrange
      by (subst shard_scan_unfold) simp
  next
    case True
    then have "length q \<le> length (Vector (recs ! j))" using Suc.prems(3) inrange by simp
    then obtain score where sc: "DotProduct q (Vector (recs ! j)) = Inr score"
      using DotProduct_total by blast
    let ?res = "\<lparr>SearchResult.ID = Record.ID (recs ! j), Score = score\<rparr>"
    obtain h1 where off: "topk_offer k h ?res = Inr h1"
      using topk_offer_cases [of k h ?res] Suc.prems(1) by auto
    show ?thesis
      using Suc.hyps(1) [OF d Suc.prems(1) Suc.prems(2) Suc.prems(3)] je inrange True sc off
      by (subst shard_scan_unfold) simp
  qed
qed

lemma mset_set_length:
  assumes "mset xs = mset ys"
  shows "set xs = set ys" and "length xs = length ys"
  using assms by (metis set_mset_mset, metis size_mset)

lemma shard_worker_Inr:
  assumes "shard_worker recs q k namespace filterKey filterVal s e = Inr chunk"
  shows "(\<forall>r\<in>set chunk. result_of recs q namespace filterKey filterVal r) \<and> length chunk \<le> nat k"
proof -
  obtain h where scan: "shard_scan recs q k namespace filterKey filterVal s e [] = Inr h"
    and drain: "heap_drain h = Inr chunk"
    using assms by (auto simp: shard_worker_def split: sum.splits)
  have h: "\<forall>r\<in>set h. result_of recs q namespace filterKey filterVal r"
    "length h \<le> max (length ([]::ResultHeap)) (nat k)"
    using shard_scan_Inr [OF _ scan] by simp_all
  obtain out where "heap_drain h = Inr out" "mset out = mset h"
    using heap_drain_shape by blast
  then have "mset chunk = mset h" using drain by simp
  then have "set chunk = set h" "length chunk = length h" by (rule mset_set_length)+
  then show ?thesis using h by simp
qed

lemma shard_worker_total:
  assumes "0 < k" "e \<le> length recs"
    "\<forall>i<length recs. passes_filters namespace filterKey filterVal (recs ! i) \<longrightarrow>
       length q \<le> length (Vector (recs ! i))"
  shows "\<exists>chunk. shard_worker recs q k namespace filterKey filterVal s e = Inr chunk"
proof -
  obtain h where scan: "shard_scan recs q k namespace filterKey filterVal s e [] = Inr h"
    using shard_scan_total [OF assms(1) assms(2) assms(3), of s "[]"] by auto
  obtain out where "heap_drain h = Inr out" using heap_drain_shape by blast
  then show ?thesis using scan by (simp add: shard_worker_def)
qed

lemma no_NaN_subset: "set h' \<subseteq> set h \<union> set c \<Longrightarrow> no_NaN h \<Longrightarrow> no_NaN c \<Longrightarrow> no_NaN h'"
  by (auto simp: no_NaN_def list_all_iff)

lemma merge_chunk_Inr:
  "merge_chunk k h chunk = Inr h' \<Longrightarrow>
   set h' \<subseteq> set h \<union> set chunk \<and> length h' \<le> max (length h) (nat k) \<and>
   (is_heap (length h) h \<and> no_NaN h \<and> no_NaN chunk \<longrightarrow> is_heap (length h') h' \<and> no_NaN h')"
proof (induction chunk arbitrary: h)
  case Nil
  then show ?case by simp
next
  case (Cons res chunk)
  obtain h1 where off: "topk_offer k h res = Inr h1" and rest: "merge_chunk k h1 chunk = Inr h'"
    using Cons.prems(1) by (auto split: sum.splits)
  have h1: "set h1 \<subseteq> insert res (set h)" "length h1 \<le> max (length h) (nat k)"
    using topk_offer_Inr(1,2) [OF off] by simp_all
  have ord: "is_heap (length h1) h1 \<and> no_NaN h1 \<and> no_NaN chunk"
    if "is_heap (length h) h" "no_NaN h" "no_NaN (res # chunk)"
    using topk_offer_Inr(3) [OF off that(1) that(2)] that(3) by (simp add: no_NaN_def)
  show ?case using Cons.IH [OF rest] h1 ord by auto
qed

lemma merge_chunk_total:
  "0 < k \<Longrightarrow> \<exists>h'. merge_chunk k h chunk = Inr h'"
proof (induction chunk arbitrary: h)
  case Nil
  then show ?case by simp
next
  case (Cons res chunk)
  obtain h1 where off: "topk_offer k h res = Inr h1"
    using topk_offer_cases [of k h res] Cons.prems(1) by auto
  show ?case using Cons.IH [OF Cons.prems(1), of h1] off by simp
qed

lemma merge_chunks_Inr:
  "merge_chunks k h chunks = Inr h' \<Longrightarrow>
   set h' \<subseteq> set h \<union> \<Union> (set ` set chunks) \<and> length h' \<le> max (length h) (nat k) \<and>
   (is_heap (length h) h \<and> no_NaN h \<and> list_all no_NaN chunks \<longrightarrow>
      is_heap (length h') h' \<and> no_NaN h')"
proof (induction chunks arbitrary: h)
  case Nil
  then show ?case by simp
next
  case (Cons chunk chunks)
  obtain h1 where one: "merge_chunk k h chunk = Inr h1" and rest: "merge_chunks k h1 chunks = Inr h'"
    using Cons.prems(1) by (auto split: sum.splits)
  have h1: "set h1 \<subseteq> set h \<union> set chunk" "length h1 \<le> max (length h) (nat k)"
    "is_heap (length h) h \<and> no_NaN h \<and> no_NaN chunk \<longrightarrow> is_heap (length h1) h1 \<and> no_NaN h1"
    using merge_chunk_Inr [OF one] by simp_all
  show ?case using Cons.IH [OF rest] h1 by auto
qed

lemma merge_chunks_total:
  "0 < k \<Longrightarrow> \<exists>h'. merge_chunks k h chunks = Inr h'"
proof (induction chunks arbitrary: h)
  case Nil
  then show ?case by simp
next
  case (Cons chunk chunks)
  obtain h1 where one: "merge_chunk k h chunk = Inr h1"
    using merge_chunk_total [OF Cons.prems] by blast
  show ?case using Cons.IH [OF Cons.prems(1), of h1] one by simp
qed

section \<open>Search\<close>

lemma shard_ranges_bound:
  "(s, e) \<in> set (shard_ranges len numWorkers chunkSize i) \<Longrightarrow> e \<le> len"
proof (induction "numWorkers - i" arbitrary: i)
  case 0
  then show ?case by (subst (asm) shard_ranges.simps) simp
next
  case (Suc d)
  then have d: "d = numWorkers - (i + 1)" by simp
  show ?case
    using Suc.prems Suc.hyps(1) [OF d]
    by (subst (asm) shard_ranges.simps) (auto simp: Let_def split: if_splits)
qed

lemma join_workers_Inr: "join_workers rs = Inr xs \<Longrightarrow> rs = map Inr xs"
  by (induction rs arbitrary: xs) (auto split: sum.splits)

lemma join_workers_total: "\<forall>r\<in>set rs. \<exists>x. r = Inr x \<Longrightarrow> \<exists>xs. join_workers rs = Inr xs"
  by (induction rs) auto

lemma join_workers_panics: "Inl p \<in> set rs \<Longrightarrow> \<exists>p'. join_workers rs = Inl p'"
  by (induction rs) (auto split: sum.splits)

lemma arrival_mset: "mset (arrival sched chunks) = mset chunks"
proof (induction sched arbitrary: chunks)
  case Nil
  then show ?case by simp
next
  case (Cons c cs)
  show ?case
  proof (cases "chunks = []")
    case True
    then show ?thesis by simp
  next
    case False
    define i where "i = c mod length chunks"
    have i: "i < length chunks" using False by (simp add: i_def)
    have "mset chunks = mset (take i chunks @ chunks ! i # drop (Suc i) chunks)"
      using id_take_nth_drop [OF i] by simp
    then show ?thesis
      using False Cons.IH [of "take i chunks @ drop (Suc i) chunks"]
      by (simp add: Let_def i_def [symmetric])
  qed
qed

lemma arrival_set: "set (arrival sched chunks) = set chunks"
  using arrival_mset [of sched chunks] by (metis set_mset_mset)

lemma Search_unfold:
  assumes "0 < numCPU"
  shows "Search numCPU sched vs query k namespace filterKey filterVal =
     (case join_workers
             (map (\<lambda>(s, e). shard_worker (Records vs) (Normalize query) k namespace filterKey filterVal s e)
                (shard_ranges (length (Records vs)) numCPU
                   ((length (Records vs) + numCPU - 1) div numCPU) 0)) of
        Inl p \<Rightarrow> Inl p
      | Inr chunks \<Rightarrow>
          (case merge_chunks k (heap_Init []) (arrival sched chunks) of
             Inl p \<Rightarrow> Inl p
           | Inr finalHeap \<Rightarrow> heap_drain finalHeap))"
  using assms by (simp add: Search_def Let_def)

lemma Search_Inr:
  assumes "Search numCPU sched vs query k namespace filterKey filterVal = Inr res"
  shows "length res \<le> nat k \<and>
         (\<forall>r\<in>set res. result_of (Records vs) (Normalize query) namespace filterKey filterVal r) \<and>
         ((\<forall>r. result_of (Records vs) (Normalize query) namespace filterKey filterVal r
               \<longrightarrow> Score r \<noteq> NaN) \<longrightarrow> sorted_desc res)"
proof -
  let ?recs = "Records vs" and ?q = "Normalize query"
  let ?ranges = "shard_ranges (length ?recs) numCPU ((length ?recs + numCPU - 1) div numCPU) 0"
  let ?workers = "map (\<lambda>(s, e). shard_worker ?recs ?q k namespace filterKey filterVal s e) ?ranges"
  have cpu: "0 < numCPU" using assms by (cases "numCPU = 0") (simp_all add: Search_def)
  note run = assms [unfolded Search_unfold [OF cpu]]
  obtain chunks where join: "join_workers ?workers = Inr chunks"
    using run by (cases "join_workers ?workers") simp_all
  obtain finalHeap where merge: "merge_chunks k (heap_Init []) (arrival sched chunks) = Inr finalHeap"
    using run join by (cases "merge_chunks k (heap_Init []) (arrival sched chunks)") simp_all
  have drain: "heap_drain finalHeap = Inr res" using run join merge by simp
  have chunk_ok: "\<forall>r\<in>set chunk. result_of ?recs ?q namespace filterKey filterVal r"
    if "chunk \<in> set chunks" for chunk
  proof -
    have "Inr chunk \<in> set ?workers" using join_workers_Inr [OF join] that by simp
    then obtain s e where "shard_worker ?recs ?q k namespace filterKey filterVal s e = Inr chunk"
      by auto
    then show ?thesis using shard_worker_Inr by blast
  qed
  have fh: "set finalHeap \<subseteq> set [] \<union> \<Union> (set ` set (arrival sched chunks))"
    "length finalHeap \<le> max (length ([]::ResultHeap)) (nat k)"
    "is_heap (length ([]::ResultHeap)) [] \<and> no_NaN [] \<and> list_all no_NaN (arrival sched chunks) \<longrightarrow>
       is_heap (length finalHeap) finalHeap \<and> no_NaN finalHeap"
    using merge_chunks_Inr [OF merge] by simp_all
  obtain out where "heap_drain finalHeap = Inr out" "mset out = mset finalHeap"
    using heap_drain_shape by blast
  then have "mset res = mset finalHeap" using drain by simp
  then have same: "set res = set finalHeap" "length res = length finalHeap"
    by (rule mset_set_length)+
  have sorted: "sorted_desc res"
    if nn: "\<forall>r. result_of ?recs ?q namespace filterKey filterVal r \<longrightarrow> Score r \<noteq> NaN"
  proof -
    have "no_NaN chunk" if "chunk \<in> set chunks" for chunk
      using no_NaN_results [OF nn chunk_ok [OF that]] .
    then have "list_all no_NaN (arrival sched chunks)"
      by (simp add: list_all_iff arrival_set)
    then have "is_heap (length finalHeap) finalHeap \<and> no_NaN finalHeap" using fh(3) by simp
    then show ?thesis using heap_drain_sorted [OF _ _ drain] by simp
  qed
  show ?thesis using same fh(1) fh(2) chunk_ok sorted by (auto simp: arrival_set)
qed

lemma Search_total:
  assumes cpu: "0 < numCPU" and k: "0 < k"
    and dims: "\<forall>rec\<in>set (Records vs). passes_filters namespace filterKey filterVal rec \<longrightarrow>
                 length query \<le> length (Vector rec)"
  shows "\<exists>res. Search numCPU sched vs query k namespace filterKey filterVal = Inr res"
proof -
  let ?recs = "Records vs" and ?q = "Normalize query"
  let ?ranges = "shard_ranges (length ?recs) numCPU ((length ?recs + numCPU - 1) div numCPU) 0"
  let ?workers = "map (\<lambda>(s, e). shard_worker ?recs ?q k namespace filterKey filterVal s e) ?ranges"
  have lq: "length ?q = length query" by (rule Normalize_length)
  have dims': "\<forall>i<length ?recs. passes_filters namespace filterKey filterVal (?recs ! i) \<longrightarrow>
                 length ?q \<le> length (Vector (?recs ! i))"
    using dims lq by simp
  have "\<forall>r\<in>set ?workers. \<exists>x. r = Inr x"
  proof
    fix r assume "r \<in> set ?workers"
    then obtain s e where se: "(s, e) \<in> set ?ranges"
      and r: "r = shard_worker ?recs ?q k namespace filterKey filterVal s e" by auto
    have "e \<le> length ?recs" using shard_ranges_bound [OF se] .
    then show "\<exists>x. r = Inr x" using shard_worker_total [OF k _ dims'] r by simp
  qed
  then obtain chunks where join: "join_workers ?workers = Inr chunks"
    using join_workers_total by blast
  obtain finalHeap where merge: "merge_chunks k (heap_Init []) (arrival sched chunks) = Inr finalHeap"
    using merge_chunks_total [OF k, of "heap_Init []"] by auto
  obtain out where "heap_drain finalHeap = Inr out" using heap_drain_shape by blast
  then show ?thesis using join merge by (simp add: Search_unfold [OF cpu])
qed

section \<open>Search with a non-positive k\<close>

lemma shard_scan_nonpositive_k:
  "k \<le> 0 \<Longrightarrow> j \<le> i \<Longrightarrow> i < e \<Longrightarrow> e \<le> length recs \<Longrightarrow>
   passes_filters namespace filterKey filterVal (recs ! i) \<Longrightarrow>
   \<exists>p. shard_scan recs q k namespace filterKey filterVal j e [] = Inl p"
proof (induction "e - j" arbitrary: j)
  case 0
  then show ?case by simp
next
  case (Suc d)
  then have je: "j < e" and d: "d = e - (j + 1)" and inrange: "\<not> length recs \<le> j" by simp_all
  show ?case
  proof (cases "passes_filters namespace filterKey filterVal (recs ! j)")
    case True
    show ?thesis
    proof (cases "DotProduct q (Vector (recs ! j))")
      case (Inl p)
      then show ?thesis using je inrange True by (subst shard_scan_unfold) simp
    next
      case (Inr score)
      then show ?thesis
        using je inrange True topk_offer_empty_panics [OF Suc.prems(1)]
        by (subst shard_scan_unfold) simp
    qed
  next
    case False
    then have "j \<noteq> i" using Suc.prems(5) by auto
    then have "j + 1 \<le> i" using Suc.prems(2) by simp
    then show ?thesis
      using Suc.hyps(1) [OF d Suc.prems(1) _ Suc.prems(3) Suc.prems(4) Suc.prems(5)] je inrange False
      by (subst shard_scan_unfold) simp
  qed
qed

lemma chunks_cover:
  fixes len numWorkers :: nat
  assumes "0 < numWorkers"
  shows "len \<le> numWorkers * ((len + numWorkers - 1) div numWorkers)"
proof -
  let ?m = "len + numWorkers - 1"
  have "?m = numWorkers * (?m div numWorkers) + ?m mod numWorkers" by simp
  moreover have "?m mod numWorkers < numWorkers" using assms by simp
  ultimately show ?thesis using assms by linarith
qed

lemma shard_ranges_cover:
  "w * chunkSize \<le> i \<Longrightarrow> i < len \<Longrightarrow> i < numWorkers * chunkSize \<Longrightarrow>
   \<exists>(s, e) \<in> set (shard_ranges len numWorkers chunkSize w). s \<le> i \<and> i < e"
proof (induction "numWorkers - w" arbitrary: w)
  case 0
  then have "numWorkers \<le> w" by simp
  then have "numWorkers * chunkSize \<le> w * chunkSize" by (rule mult_le_mono1)
  then have False using "0.prems"(1) "0.prems"(3) by linarith
  then show ?case ..
next
  case (Suc d)
  then have w: "w < numWorkers" and d: "d = numWorkers - (w + 1)" by simp_all
  have start: "\<not> len \<le> w * chunkSize" using Suc.prems by simp
  have unfold: "shard_ranges len numWorkers chunkSize w =
      (w * chunkSize, min (w * chunkSize + chunkSize) len)
        # shard_ranges len numWorkers chunkSize (w + 1)"
    using w start by (subst shard_ranges.simps) (simp add: Let_def)
  show ?case
  proof (cases "i < w * chunkSize + chunkSize")
    case True
    then show ?thesis using unfold Suc.prems by simp
  next
    case False
    then have "(w + 1) * chunkSize \<le> i" by simp
    then show ?thesis
      using Suc.hyps(1) [OF d _ Suc.prems(2) Suc.prems(3)] unfold by simp
  qed
qed

lemma Search_nonpositive_k:
  assumes cpu: "0 < numCPU" and k: "k \<le> 0"
  shows "(\<exists>rec\<in>set (Records vs). passes_filters namespace filterKey filterVal rec) \<Longrightarrow>
         \<exists>p. Search numCPU sched vs query k namespace filterKey filterVal = Inl p"
    and "Search numCPU sched vs query k namespace filterKey filterVal = Inr res \<Longrightarrow> res = []"
proof -
  let ?recs = "Records vs" and ?q = "Normalize query"
  let ?cs = "(length ?recs + numCPU - 1) div numCPU"
  let ?ranges = "shard_ranges (length ?recs) numCPU ?cs 0"
  let ?workers = "map (\<lambda>(s, e). shard_worker ?recs ?q k namespace filterKey filterVal s e) ?ranges"
  {
    assume "\<exists>rec\<in>set ?recs. passes_filters namespace filterKey filterVal rec"
    then obtain i where i: "i < length ?recs"
      and pass: "passes_filters namespace filterKey filterVal (?recs ! i)"
      by (auto simp: in_set_conv_nth)
    have "i < numCPU * ?cs" using chunks_cover [OF cpu, of "length ?recs"] i by simp
    then obtain s e where se: "(s, e) \<in> set ?ranges" and "s \<le> i" "i < e"
      using shard_ranges_cover [of 0 ?cs i "length ?recs" numCPU] i by auto
    then obtain p where "shard_scan ?recs ?q k namespace filterKey filterVal s e [] = Inl p"
      using shard_scan_nonpositive_k [OF k _ _ shard_ranges_bound [OF se] pass] by blast
    then have "shard_worker ?recs ?q k namespace filterKey filterVal s e = Inl p"
      by (simp add: shard_worker_def)
    then have "Inl p \<in> set ?workers" using se by force
    then obtain p' where "join_workers ?workers = Inl p'" using join_workers_panics by blast
    then show "\<exists>p. Search numCPU sched vs query k namespace filterKey filterVal = Inl p"
      by (simp add: Search_unfold [OF cpu])
  }
  {
    assume "Search numCPU sched vs query k namespace filterKey filterVal = Inr res"
    then have "length res \<le> nat k" using Search_Inr by blast
    then show "res = []" using k by simp
  }
qed

section \<open>Claims about Search\<close>

lemmas eval_simps =
  Search_def Let_def Normalize_def shard_ranges.simps shard_worker_def shard_scan.simps
  DotProduct_def DotProduct_unrolled.simps DotProduct_remainder.simps topk_offer_def
  heap_Push_def heap_Pop_def heap_up.simps heap_down.simps ResultHeap_Push_def ResultHeap_Pop_def
  Less_def Swap_def heap_drain_def heap_Init_def Metadata_value_def
  f32_round_int round_mag_int64

text \<open>
  C1, as the code has it. Let \<open>runtime.NumCPU()\<close> be positive and \<open>k > 0\<close>, and let
  every record that passes the filters hold a vector with at least as many components
  as the query and have a score that is not NaN. Then, in whatever order the workers'
  results arrive, \<open>Search\<close> returns a list of at most \<open>k\<close> results in non-increasing
  order of score.
\<close>

theorem Search_top_k_sorted:
  assumes "0 < numCPU" and "0 < k"
    and "\<forall>rec\<in>set (Records vs). passes_filters namespace filterKey filterVal rec \<longrightarrow>
           length query \<le> length (Vector rec) \<and>
           DotProduct (Normalize query) (Vector rec) \<noteq> Inr NaN"
  shows "\<exists>res. Search numCPU sched vs query k namespace filterKey filterVal = Inr res \<and>
               int (length res) \<le> k \<and> sorted_desc res"
proof -
  have dims: "\<forall>rec\<in>set (Records vs). passes_filters namespace filterKey filterVal rec \<longrightarrow>
           length query \<le> length (Vector rec)"
    using assms(3) by blast
  obtain res where res: "Search numCPU sched vs query k namespace filterKey filterVal = Inr res"
    using Search_total [OF assms(1) assms(2) dims] by blast
  have nn: "Score r \<noteq> NaN"
    if ro: "result_of (Records vs) (Normalize query) namespace filterKey filterVal r" for r
  proof -
    obtain i where i: "i < length (Records vs)"
      and sc: "DotProduct (Normalize query) (Vector (Records vs ! i)) = Inr (Score r)"
      and "namespace \<noteq> [] \<longrightarrow> Namespace (Records vs ! i) = namespace"
      and "filterKey \<noteq> [] \<longrightarrow> Metadata_value (Metadata (Records vs ! i)) filterKey = filterVal"
      using ro unfolding result_of_def by blast
    then have "passes_filters namespace filterKey filterVal (Records vs ! i)"
      by (auto simp: passes_filters_def)
    moreover have "Records vs ! i \<in> set (Records vs)" using i by simp
    ultimately have "DotProduct (Normalize query) (Vector (Records vs ! i)) \<noteq> Inr NaN"
      using assms(3) by blast
    then show ?thesis using sc by auto
  qed
  have "sorted_desc res" "length res \<le> nat k" using Search_Inr [OF res] nn by simp_all
  then show ?thesis using res assms(2) by auto
qed

theorem Search_top_k_sorted_witness:
  "(0::nat) < 2 \<and> (0::int) < 2 \<and>
   list_all (\<lambda>rec. length [f32_of 1, f32_of 0] \<le> length (Vector rec) \<and>
                    DotProduct (Normalize [f32_of 1, f32_of 0]) (Vector rec) \<noteq> Inr NaN)
     (Records demo_store) \<and>
   Search 2 [1] demo_store [f32_of 1, f32_of 0] 2 ''ns1'' [] [] =
     Inr [\<lparr>SearchResult.ID = ''a'', Score = f32_of 1\<rparr>,
          \<lparr>SearchResult.ID = ''e'', Score = f32_of 1\<rparr>] \<and>
   sorted_desc [\<lparr>SearchResult.ID = ''a'', Score = f32_of 1\<rparr>,
                \<lparr>SearchResult.ID = ''e'', Score = f32_of 1\<rparr>]"
proof -
  have all: "list_all (\<lambda>rec. length [f32_of 1, f32_of 0] \<le> length (Vector rec) \<and>
                    DotProduct (Normalize [f32_of 1, f32_of 0]) (Vector rec) \<noteq> Inr NaN)
     (Records demo_store)"
    by (simp add: demo_store_def eval_simps)
  then have dims: "\<forall>rec\<in>set (Records demo_store). passes_filters ''ns1'' [] [] rec \<longrightarrow>
      length [f32_of 1, f32_of 0] \<le> length (Vector rec) \<and>
      DotProduct (Normalize [f32_of 1, f32_of 0]) (Vector rec) \<noteq> Inr NaN"
    by (simp add: list_all_iff)
  have run: "Search 2 [1] demo_store [f32_of 1, f32_of 0] 2 ''ns1'' [] [] =
     Inr [\<lparr>SearchResult.ID = ''a'', Score = f32_of 1\<rparr>,
          \<lparr>SearchResult.ID = ''e'', Score = f32_of 1\<rparr>]"
    by (simp add: demo_store_def eval_simps)
  show ?thesis
    using Search_top_k_sorted
      [of 2 2 demo_store "''ns1''" "[]" "[]" "[f32_of 1, f32_of 0]" "[1]", OF _ _ dims] run all
    by simp
qed

text \<open>
  The store holds a vector of one component and the query has two: the second loop of
  \<open>DotProduct\<close> reads \<open>b[1]\<close> and \<open>Search\<close> panics, returning no list.
\<close>

theorem Search_dimension_counterexample:
  "Search 1 [] short_store [f32_of 1, f32_of 0] 1 [] [] [] = Inl IndexOutOfRange"
  by (simp add: short_store_def eval_simps)

text \<open>
  With scores that are NaN the list returned need not be in order: every comparison with
  NaN is false, so the heap keeps a NaN wherever it was appended. On \<open>nan_store\<close> the
  score \<open>0\<close> is returned before the score \<open>1\<close>.
\<close>

lemma Search_NaN_unsorted:
  "Search 1 [] nan_store [f32_of 1, f32_of 0] 4 [] [] [] =
     Inr [\<lparr>SearchResult.ID = ''c'', Score = NaN\<rparr>, \<lparr>SearchResult.ID = ''d'', Score = f32_of 0\<rparr>,
          \<lparr>SearchResult.ID = ''a'', Score = f32_of 1\<rparr>, \<lparr>SearchResult.ID = ''b'', Score = NaN\<rparr>] \<and>
   \<not> sorted_desc [\<lparr>SearchResult.ID = ''c'', Score = NaN\<rparr>, \<lparr>SearchResult.ID = ''d'', Score = f32_of 0\<rparr>,
          \<lparr>SearchResult.ID = ''a'', Score = f32_of 1\<rparr>, \<lparr>SearchResult.ID = ''b'', Score = NaN\<rparr>]"
  by (simp add: nan_store_def eval_simps sorted_desc_def)

text \<open>
  C2 fails on the code. With \<open>k = 0\<close> or \<open>k = -1\<close> and a record that passes the
  filters, the worker finds \<open>h.Len() < k\<close> false on its empty heap and reads
  \<open>(*h)[0]\<close>: \<open>Search\<close> panics instead of returning an empty list. Lemma
  \<open>Search_nonpositive_k\<close> shows the same for every \<open>k \<le> 0\<close> and every store with
  a record that passes the filters, and that a list returned for \<open>k \<le> 0\<close> is empty.
\<close>

theorem Search_nonpositive_k_panics:
  "Search 1 [] short_store [f32_of 1] 0 [] [] [] = Inl IndexOutOfRange \<and>
   Search 1 [] short_store [f32_of 1] (- 1) [] [] [] = Inl IndexOutOfRange \<and>
   Search 2 [1] demo_store [f32_of 1, f32_of 0] 0 ''ns1'' ''lang'' ''en'' = Inl IndexOutOfRange"
  by (simp add: short_store_def demo_store_def eval_simps)

lemma store_inv_position:
  assumes "store_inv vs" "i < length (Records vs)"
  shows "IDMap vs (Record.ID (Records vs ! i)) = Some i"
  using assms by (simp add: store_inv_def)

text \<open>
  C3. Every result that \<open>Search\<close> returns carries the identifier of a record of the
  store that satisfies both filters: its namespace is the requested one when the
  namespace argument is not empty, and its metadata value for the filter key, read as
  the empty string when the key is missing, is the filter value when the filter key is
  not empty. When the store satisfies its invariant, that record is the one the
  identifier mapping yields for the result's identifier.
\<close>

theorem Search_results_pass_filters:
  assumes "Search numCPU sched vs query k namespace filterKey filterVal = Inr res"
    and "r \<in> set res"
  shows "(\<exists>rec\<in>set (Records vs).
            Record.ID rec = SearchResult.ID r \<and>
            (namespace \<noteq> [] \<longrightarrow> Namespace rec = namespace) \<and>
            (filterKey \<noteq> [] \<longrightarrow>
               (case Metadata rec filterKey of None \<Rightarrow> [] | Some v \<Rightarrow> v) = filterVal)) \<and>
         (store_inv vs \<longrightarrow>
            (\<exists>idx. IDMap vs (SearchResult.ID r) = Some idx \<and> idx < length (Records vs) \<and>
               (namespace \<noteq> [] \<longrightarrow> Namespace (Records vs ! idx) = namespace) \<and>
               (filterKey \<noteq> [] \<longrightarrow>
                  (case Metadata (Records vs ! idx) filterKey of None \<Rightarrow> [] | Some v \<Rightarrow> v)
                  = filterVal)))"
proof -
  have "result_of (Records vs) (Normalize query) namespace filterKey filterVal r"
    using Search_Inr [OF assms(1)] assms(2) by simp
  then obtain i where i: "i < length (Records vs)"
    and ident: "Record.ID (Records vs ! i) = SearchResult.ID r"
    and ns: "namespace \<noteq> [] \<longrightarrow> Namespace (Records vs ! i) = namespace"
    and md: "filterKey \<noteq> [] \<longrightarrow>
               (case Metadata (Records vs ! i) filterKey of None \<Rightarrow> [] | Some v \<Rightarrow> v) = filterVal"
    by (auto simp: result_of_def Metadata_value_def)
  have "Records vs ! i \<in> set (Records vs)" using i by simp
  then have first: "\<exists>rec\<in>set (Records vs).
            Record.ID rec = SearchResult.ID r \<and>
            (namespace \<noteq> [] \<longrightarrow> Namespace rec = namespace) \<and>
            (filterKey \<noteq> [] \<longrightarrow>
               (case Metadata rec filterKey of None \<Rightarrow> [] | Some v \<Rightarrow> v) = filterVal)"
    using ident ns md by blast
  have "IDMap vs (SearchResult.ID r) = Some i" if "store_inv vs"
    using store_inv_position [OF that i] ident by simp
  then show ?thesis using first i ns md by blast
qed

theorem Search_results_pass_filters_witness:
  "Search 2 [1] demo_store [f32_of 1, f32_of 0] 3 ''ns1'' ''lang'' ''en'' =
     Inr [\<lparr>SearchResult.ID = ''a'', Score = f32_of 1\<rparr>,
          \<lparr>SearchResult.ID = ''c'', Score = f32_of (- 1)\<rparr>] \<and>
   \<lparr>SearchResult.ID = ''c'', Score = f32_of (- 1)\<rparr>
     \<in> set [\<lparr>SearchResult.ID = ''a'', Score = f32_of 1\<rparr>,
            \<lparr>SearchResult.ID = ''c'', Score = f32_of (- 1)\<rparr>] \<and>
   (\<exists>rec\<in>set (Records demo_store).
      Record.ID rec = ''c'' \<and> Namespace rec = ''ns1'' \<and>
      (case Metadata rec ''lang'' of None \<Rightarrow> [] | Some v \<Rightarrow> v) = ''en'')"
proof -
  have run: "Search 2 [1] demo_store [f32_of 1, f32_of 0] 3 ''ns1'' ''lang'' ''en'' =
     Inr [\<lparr>SearchResult.ID = ''a'', Score = f32_of 1\<rparr>,
          \<lparr>SearchResult.ID = ''c'', Score = f32_of (- 1)\<rparr>]"
    by (simp add: demo_store_def eval_simps)
  have mem: "\<lparr>SearchResult.ID = ''c'', Score = f32_of (- 1)\<rparr>
     \<in> set [\<lparr>SearchResult.ID = ''a'', Score = f32_of 1\<rparr>,
            \<lparr>SearchResult.ID = ''c'', Score = f32_of (- 1)\<rparr>]"
    by simp
  show ?thesis
    using Search_results_pass_filters [OF run mem] run by simp
qed

section \<open>Claims about the record store\<close>

text \<open>
  C4. When the identifier is in the mapping, at a position of the record sequence,
  \<open>AddItem\<close> replaces the record at that position and leaves the mapping and the
  number of records unchanged. When the identifier is not in the mapping, \<open>AddItem\<close>
  appends the new record at the end and maps the identifier to that new position.
\<close>

theorem AddItem_upsert:
  "(IDMap vs ident = Some idx \<and> idx < length (Records vs) \<longrightarrow>
      (\<exists>vs'. AddItem vs ident vector meta namespace = Inr vs' \<and>
         Records vs' =
           (Records vs)[idx := \<lparr>Record.ID = ident, Vector = Normalize vector,
                                 Quantized = Quantize (Normalize vector),
                                 Metadata = meta, Namespace = namespace\<rparr>] \<and>
         IDMap vs' = IDMap vs \<and> length (Records vs') = length (Records vs))) \<and>
   (IDMap vs ident = None \<longrightarrow>
      (\<exists>vs'. AddItem vs ident vector meta namespace = Inr vs' \<and>
         Records vs' =
           Records vs @ [\<lparr>Record.ID = ident, Vector = Normalize vector,
                           Quantized = Quantize (Normalize vector),
                           Metadata = meta, Namespace = namespace\<rparr>] \<and>
         IDMap vs' = (IDMap vs)(ident \<mapsto> length (Records vs))))"
  by (simp add: AddItem_def Let_def)

lemma Normalize_0_2: "Normalize [f32_of 0, f32_of 2] = [f32_of 0, f32_of 1]"
  by (simp add: Normalize_def f32_round_int round_mag_int64 Let_def)

lemma Quantize_0_1: "Quantize [f32_of 0, f32_of 1] = [0, 127]"
  by (simp add: Quantize_eq f32_round_int)

theorem AddItem_upsert_witness:
  "IDMap short_store ''a'' = Some 0 \<and> 0 < length (Records short_store) \<and>
   (\<exists>vs'. AddItem short_store ''a'' [f32_of 0, f32_of 2] [''k'' \<mapsto> ''v''] ''ns'' = Inr vs' \<and>
      Records vs' = [\<lparr>Record.ID = ''a'', Vector = [f32_of 0, f32_of 1], Quantized = [0, 127],
                      Metadata = [''k'' \<mapsto> ''v''], Namespace = ''ns''\<rparr>] \<and>
      IDMap vs' = IDMap short_store) \<and>
   IDMap short_store ''b'' = None \<and>
   (\<exists>vs'. AddItem short_store ''b'' [f32_of 0, f32_of 2] Map.empty ''ns'' = Inr vs' \<and>
      length (Records vs') = 2 \<and> IDMap vs' ''b'' = Some 1)"
proof -
  note n = Normalize_0_2 and q = Quantize_0_1
  have a: "IDMap short_store ''a'' = Some 0 \<and> 0 < length (Records short_store)"
    by (simp add: short_store_def)
  have b: "IDMap short_store ''b'' = None" by (simp add: short_store_def)
  show ?thesis
    using AddItem_upsert [of short_store "''a''" 0 "[f32_of 0, f32_of 2]" "[''k'' \<mapsto> ''v'']" "''ns''"]
      AddItem_upsert [of short_store "''b''" 0 "[f32_of 0, f32_of 2]" Map.empty "''ns''"] a b n q
    by (auto simp: short_store_def)
qed













section \<open>Claims about persistence\<close>

lemma store_inv_distinct:
  assumes "store_inv vs"
  shows "distinct (map Record.ID (Records vs))"
proof -
  have "i = j" if "i < length (Records vs)" "j < length (Records vs)"
    "Record.ID (Records vs ! i) = Record.ID (Records vs ! j)" for i j
  proof -
    have "IDMap vs (Record.ID (Records vs ! i)) = Some i"
      by (rule store_inv_position [OF assms that(1)])
    moreover have "IDMap vs (Record.ID (Records vs ! j)) = Some j"
      by (rule store_inv_position [OF assms that(2)])
    ultimately show ?thesis using that(3) by (metis option.inject)
  qed
  then show ?thesis by (auto simp: distinct_conv_nth)
qed

lemma Save_success:
  assumes "Save json_Marshal fs vs filename = (None, fs')"
  shows "\<exists>data. json_Marshal (Records vs) = Inr data \<and> os_ReadFile fs' filename = Inr data"
proof -
  obtain data where m: "json_Marshal (Records vs) = Inr data"
    using assms by (cases "json_Marshal (Records vs)") (simp_all add: Save_def)
  then have w: "os_WriteFile fs filename data = (None, fs')" using assms by (simp add: Save_def)
  then have "filename \<notin> denied fs" by (auto simp: os_WriteFile_def split: if_splits)
  then have "os_ReadFile fs' filename = Inr data"
    using w by (auto simp: os_WriteFile_def os_ReadFile_def)
  then show ?thesis using m by blast
qed

lemma Load_read_error:
  "os_ReadFile fs filename = Inl err \<Longrightarrow> Load json_Unmarshal fs vs filename = (Some err, vs)"
  by (simp add: Load_def)

lemma Load_error_IDMap:
  "Load json_Unmarshal fs vs filename = (Some err, vs') \<Longrightarrow> IDMap vs' = IDMap vs"
  by (auto simp: Load_def split: sum.splits prod.splits option.splits)

lemma Load_decode_error:
  "os_ReadFile fs filename = Inr data \<Longrightarrow> json_Unmarshal data (Records vs) = (Some err, recs) \<Longrightarrow>
   Load json_Unmarshal fs vs filename = (Some err, vs\<lparr>Records := recs\<rparr>)"
  by (simp add: Load_def)

text \<open>
  C10 fails on the code. \<open>Load\<close> passes \<open>&vs.Records\<close> to \<open>json.Unmarshal\<close> and
  returns early on its error, before the mapping is rebuilt. On a file whose second
  record has a vector of the wrong type the decoder has filled the slice when it reports
  the error: the empty store is left with two records and an empty mapping.
\<close>

theorem Load_decode_error_not_atomic:
  "Load decode_mismatch demo_fs NewVectorStore ''vectors.json'' =
     (Some UnmarshalTypeError,
      \<lparr>Records = [\<lparr>Record.ID = ''a'', Vector = [f32_of 1], Quantized = [],
                   Metadata = Map.empty, Namespace = []\<rparr>,
                  \<lparr>Record.ID = ''b'', Vector = [], Quantized = [],
                   Metadata = Map.empty, Namespace = []\<rparr>],
       IDMap = Map.empty\<rparr>) \<and>
   Records (snd (Load decode_mismatch demo_fs NewVectorStore ''vectors.json''))
     \<noteq> Records NewVectorStore"
  by (simp add: Load_def os_ReadFile_def demo_fs_def decode_mismatch_def NewVectorStore_def)

end
